theory Spec2Isabelle
  imports Main "HOL-Library.Word"
begin

unbundle bit_operations_syntax

section \<open>Data model (header/hashmap.h)\<close>

text \<open>
  \<open>unsigned\<close> is a 32-bit word, so \<open>+\<close>, \<open>-\<close> and \<open>*\<close> wrap around as in C. A pointer is
  an address (\<open>0\<close> is \<open>NULL\<close>). The bytes that key pointers refer to live in caller
  memory, which the table only reads: it is a parameter \<open>mem\<close> of every function that
  looks at key bytes. A value (\<open>void *\<close>) is an address that the table stores and returns
  and never dereferences.
\<close>

type_synonym u32 = "32 word"
type_synonym u8 = "8 word"
type_synonym ptr = nat
type_synonym memory = "nat \<Rightarrow> 8 word"

definition HASHMAP_MAX_CHAIN_LENGTH :: nat where
  "HASHMAP_MAX_CHAIN_LENGTH = 8"

record HashmapElement =
  key :: ptr
  keyLen :: u32
  used :: bool
  data :: ptr

text \<open>
  The field \<open>data\<close> of \<open>Hashmap\<close> points to the bucket array; the model holds the array's
  contents there (\<open>[]\<close> for \<open>NULL\<close>). The fields \<open>size\<close> and \<open>data\<close> of \<open>Hashmap\<close> carry the
  suffix \<open>_hm\<close>: \<open>size\<close> is a constant of HOL and \<open>data\<close> is the element's field.
\<close>

record Hashmap =
  tableSize :: u32
  size_hm :: u32
  data_hm :: "HashmapElement list"

text \<open>What \<open>memset(elem, 0, sizeof(HashmapElement))\<close> and \<open>calloc\<close> leave in a slot.\<close>

definition zero_element :: HashmapElement where
  "zero_element = \<lparr>key = 0, keyLen = 0, used = False, data = 0\<rparr>"

text \<open>
  The allocator: the outcomes of the coming \<open>calloc\<close> calls, in order (\<open>False\<close>: the call
  returns \<open>NULL\<close>); once the list is used up every call succeeds.
\<close>

type_synonym allocator = "bool list"

definition calloc :: "nat \<Rightarrow> allocator \<Rightarrow> HashmapElement list option \<times> allocator" where
  "calloc n a =
     (case a of
        [] \<Rightarrow> (Some (replicate n zero_element), [])
      | ok # a' \<Rightarrow> (if ok then Some (replicate n zero_element) else None, a'))"

section \<open>hashmapCreate and hashmapDestroy\<close>

text \<open>
  \<open>hashmapCreate\<close> returns its \<open>int\<close> result together with the output structure, which it
  writes through the pointer \<open>outHashmap\<close>: the structure the caller passed in is the
  argument \<open>outHashmap\<close>.
\<close>

definition hashmapCreate :: "u32 \<Rightarrow> Hashmap \<Rightarrow> allocator \<Rightarrow> int \<times> Hashmap \<times> allocator" where
  "hashmapCreate initialSize outHashmap a =
     (let out1 = outHashmap\<lparr>tableSize := initialSize, size_hm := 0\<rparr> in
      if initialSize = 0 \<or> (initialSize AND (initialSize - 1)) \<noteq> 0 then (1, out1, a)
      else (case calloc (unat initialSize) a of
              (None, a') \<Rightarrow> (1, out1\<lparr>data_hm := []\<rparr>, a')
            | (Some arr, a') \<Rightarrow> (0, out1\<lparr>data_hm := arr\<rparr>, a')))"

definition hashmapDestroy :: "Hashmap \<Rightarrow> Hashmap" where
  "hashmapDestroy hashmap = \<lparr>tableSize = 0, size_hm = 0, data_hm = []\<rparr>"

section \<open>Key comparison and hashing\<close>

text \<open>The \<open>len\<close> bytes at \<open>p\<close>: \<open>p[0]\<close>, ..., \<open>p[len - 1]\<close>.\<close>

definition key_bytes :: "memory \<Rightarrow> ptr \<Rightarrow> u32 \<Rightarrow> u8 list" where
  "key_bytes mem p len = map (\<lambda>i. mem (p + i)) [0..<unat len]"

fun memcmp :: "memory \<Rightarrow> ptr \<Rightarrow> ptr \<Rightarrow> nat \<Rightarrow> int" where
  "memcmp mem p q 0 = 0"
| "memcmp mem p q (Suc n) =
     (if mem p = mem q then memcmp mem (Suc p) (Suc q) n
      else if mem p < mem q then - 1 else 1)"

definition hashmapCheckIfMatch :: "memory \<Rightarrow> HashmapElement \<Rightarrow> ptr \<Rightarrow> u32 \<Rightarrow> bool" where
  "hashmapCheckIfMatch mem element k len \<longleftrightarrow>
     keyLen element = len \<and> memcmp mem (key element) k (unat len) = 0"

definition crc32tab :: "u32 list" where
  "crc32tab =
    [0x00000000, 0xF26B8303, 0xE13B70F7, 0x1350F3F4, 0xC79A971F, 0x35F1141C,
     0x26A1E7E8, 0xD4CA64EB, 0x8AD958CF, 0x78B2DBCC, 0x6BE22838, 0x9989AB3B,
     0x4D43CFD0, 0xBF284CD3, 0xAC78BF27, 0x5E133C24, 0x105EC76F, 0xE235446C,
     0xF165B798, 0x030E349B, 0xD7C45070, 0x25AFD373, 0x36FF2087, 0xC494A384,
     0x9A879FA0, 0x68EC1CA3, 0x7BBCEF57, 0x89D76C54, 0x5D1D08BF, 0xAF768BBC,
     0xBC267848, 0x4E4DFB4B, 0x20BD8EDE, 0xD2D60DDD, 0xC186FE29, 0x33ED7D2A,
     0xE72719C1, 0x154C9AC2, 0x061C6936, 0xF477EA35, 0xAA64D611, 0x580F5512,
     0x4B5FA6E6, 0xB93425E5, 0x6DFE410E, 0x9F95C20D, 0x8CC531F9, 0x7EAEB2FA,
     0x30E349B1, 0xC288CAB2, 0xD1D83946, 0x23B3BA45, 0xF779DEAE, 0x05125DAD,
     0x1642AE59, 0xE4292D5A, 0xBA3A117E, 0x4851927D, 0x5B016189, 0xA96AE28A,
     0x7DA08661, 0x8FCB0562, 0x9C9BF696, 0x6EF07595, 0x417B1DBC, 0xB3109EBF,
     0xA0406D4B, 0x522BEE48, 0x86E18AA3, 0x748A09A0, 0x67DAFA54, 0x95B17957,
     0xCBA24573, 0x39C9C670, 0x2A993584, 0xD8F2B687, 0x0C38D26C, 0xFE53516F,
     0xED03A29B, 0x1F682198, 0x5125DAD3, 0xA34E59D0, 0xB01EAA24, 0x42752927,
     0x96BF4DCC, 0x64D4CECF, 0x77843D3B, 0x85EFBE38, 0xDBFC821C, 0x2997011F,
     0x3AC7F2EB, 0xC8AC71E8, 0x1C661503, 0xEE0D9600, 0xFD5D65F4, 0x0F36E6F7,
     0x61C69362, 0x93AD1061, 0x80FDE395, 0x72966096, 0xA65C047D, 0x5437877E,
     0x4767748A, 0xB50CF789, 0xEB1FCBAD, 0x197448AE, 0x0A24BB5A, 0xF84F3859,
     0x2C855CB2, 0xDEEEDFB1, 0xCDBE2C45, 0x3FD5AF46, 0x7198540D, 0x83F3D70E,
     0x90A324FA, 0x62C8A7F9, 0xB602C312, 0x44694011, 0x5739B3E5, 0xA55230E6,
     0xFB410CC2, 0x092A8FC1, 0x1A7A7C35, 0xE811FF36, 0x3CDB9BDD, 0xCEB018DE,
     0xDDE0EB2A, 0x2F8B6829, 0x82F63B78, 0x709DB87B, 0x63CD4B8F, 0x91A6C88C,
     0x456CAC67, 0xB7072F64, 0xA457DC90, 0x563C5F93, 0x082F63B7, 0xFA44E0B4,
     0xE9141340, 0x1B7F9043, 0xCFB5F4A8, 0x3DDE77AB, 0x2E8E845F, 0xDCE5075C,
     0x92A8FC17, 0x60C37F14, 0x73938CE0, 0x81F80FE3, 0x55326B08, 0xA759E80B,
     0xB4091BFF, 0x466298FC, 0x1871A4D8, 0xEA1A27DB, 0xF94AD42F, 0x0B21572C,
     0xDFEB33C7, 0x2D80B0C4, 0x3ED04330, 0xCCBBC033, 0xA24BB5A6, 0x502036A5,
     0x4370C551, 0xB11B4652, 0x65D122B9, 0x97BAA1BA, 0x84EA524E, 0x7681D14D,
     0x2892ED69, 0xDAF96E6A, 0xC9A99D9E, 0x3BC21E9D, 0xEF087A76, 0x1D63F975,
     0x0E330A81, 0xFC588982, 0xB21572C9, 0x407EF1CA, 0x532E023E, 0xA145813D,
     0x758FE5D6, 0x87E466D5, 0x94B49521, 0x66DF1622, 0x38CC2A06, 0xCAA7A905,
     0xD9F75AF1, 0x2B9CD9F2, 0xFF56BD19, 0x0D3D3E1A, 0x1E6DCDEE, 0xEC064EED,
     0xC38D26C4, 0x31E6A5C7, 0x22B65633, 0xD0DDD530, 0x0417B1DB, 0xF67C32D8,
     0xE52CC12C, 0x1747422F, 0x49547E0B, 0xBB3FFD08, 0xA86F0EFC, 0x5A048DFF,
     0x8ECEE914, 0x7CA56A17, 0x6FF599E3, 0x9D9E1AE0, 0xD3D3E1AB, 0x21B862A8,
     0x32E8915C, 0xC083125F, 0x144976B4, 0xE622F5B7, 0xF5720643, 0x07198540,
     0x590AB964, 0xAB613A67, 0xB831C993, 0x4A5A4A90, 0x9E902E7B, 0x6CFBAD78,
     0x7FAB5E8C, 0x8DC0DD8F, 0xE330A81A, 0x115B2B19, 0x020BD8ED, 0xF0605BEE,
     0x24AA3F05, 0xD6C1BC06, 0xC5914FF2, 0x37FACCF1, 0x69E9F0D5, 0x9B8273D6,
     0x88D28022, 0x7AB90321, 0xAE7367CA, 0x5C18E4C9, 0x4F48173D, 0xBD23943E,
     0xF36E6F75, 0x0105EC76, 0x12551F82, 0xE03E9C81, 0x34F4F86A, 0xC69F7B69,
     0xD5CF889D, 0x27A40B9E, 0x79B737BA, 0x8BDCB4B9, 0x988C474D, 0x6AE7C44E,
     0xBE2DA0A5, 0x4C4623A6, 0x5F16D052, 0xAD7D5351]"

definition crc32_step :: "u32 \<Rightarrow> u8 \<Rightarrow> u32" where
  "crc32_step crc32val c =
     (crc32tab ! unat ((ucast crc32val :: u8) XOR c)) XOR drop_bit 8 crc32val"

definition hashmapCRC32 :: "memory \<Rightarrow> ptr \<Rightarrow> u32 \<Rightarrow> u32" where
  "hashmapCRC32 mem s len = foldl crc32_step 0 (key_bytes mem s len)"

definition hashmapStringHasher :: "memory \<Rightarrow> Hashmap \<Rightarrow> ptr \<Rightarrow> u32 \<Rightarrow> u32" where
  "hashmapStringHasher mem hashmap keystring len =
     (let k0 = hashmapCRC32 mem keystring len;
          k1 = k0 + push_bit 12 k0;
          k2 = k1 XOR drop_bit 22 k1;
          k3 = k2 + push_bit 4 k2;
          k4 = k3 XOR drop_bit 9 k3;
          k5 = k4 + push_bit 10 k4;
          k6 = k5 XOR drop_bit 2 k5;
          k7 = k6 + push_bit 7 k6;
          k8 = k7 XOR drop_bit 12 k7;
          k9 = drop_bit 3 k8 * 2654435761
      in k9 mod tableSize hashmap)"

section \<open>hashmapGetBucket, hashmapGet, hashmapRemove\<close>

text \<open>
  Each \<open>for\<close> loop over \<open>HASHMAP_MAX_CHAIN_LENGTH\<close> slots is a function of the number of
  iterations left and of the index \<open>curr\<close> of the source, written \<open>cur\<close> (\<open>curr\<close> is a
  constant of HOL); the parameters \<open>key\<close> and \<open>value\<close> of the source are \<open>k\<close> and \<open>v\<close>
  (\<open>key\<close> is the element's field). The first loop of \<open>hashmapGetBucket\<close> returns
  \<open>Inl cur\<close> where the source returns \<open>true\<close>, and \<open>Inr totalUsed\<close> when it runs to its end.
  \<open>hashmapGetBucket\<close> returns \<open>Some outIndex\<close> for \<open>true\<close> with \<open>*outIndex\<close> written, and
  \<open>None\<close> for \<open>false\<close>.

  Reading \<open>data[cur]\<close> outside the array and \<open>%\<close> by a \<open>tableSize\<close> of 0 are undefined in
  C; the model leaves them unspecified (\<open>!\<close> beyond the list, \<open>mod 0\<close>). Neither happens on
  a table whose array has \<open>tableSize\<close> slots and whose \<open>tableSize\<close> is not 0
  (\<open>hasher_less\<close>, \<open>key_window_less\<close> below), as every valid table is
  (\<open>hashmap_inv\<close>; \<open>reachable_inv\<close>).
\<close>

fun getBucket_match :: "memory \<Rightarrow> Hashmap \<Rightarrow> ptr \<Rightarrow> u32 \<Rightarrow> nat \<Rightarrow> u32 \<Rightarrow> int \<Rightarrow> u32 + int" where
  "getBucket_match mem h k len 0 cur totalUsed = Inr totalUsed"
| "getBucket_match mem h k len (Suc n) cur totalUsed =
     (let u = used (data_hm h ! unat cur);
          totalUsed' = totalUsed + (if u then 1 else 0)
      in if u \<and> hashmapCheckIfMatch mem (data_hm h ! unat cur) k len then Inl cur
         else getBucket_match mem h k len n ((cur + 1) mod tableSize h) totalUsed')"

fun getBucket_free :: "Hashmap \<Rightarrow> nat \<Rightarrow> u32 \<Rightarrow> u32 option" where
  "getBucket_free h 0 cur = None"
| "getBucket_free h (Suc n) cur =
     (if \<not> used (data_hm h ! unat cur) then Some cur
      else getBucket_free h n ((cur + 1) mod tableSize h))"

definition hashmapGetBucket :: "memory \<Rightarrow> Hashmap \<Rightarrow> ptr \<Rightarrow> u32 \<Rightarrow> u32 option" where
  "hashmapGetBucket mem h k len =
     (if size_hm h \<ge> tableSize h then None
      else let start = hashmapStringHasher mem h k len in
        case getBucket_match mem h k len HASHMAP_MAX_CHAIN_LENGTH start 0 of
          Inl outIndex \<Rightarrow> Some outIndex
        | Inr totalUsed \<Rightarrow>
            if int HASHMAP_MAX_CHAIN_LENGTH > totalUsed
            then getBucket_free h HASHMAP_MAX_CHAIN_LENGTH start
            else None)"

fun hashmapGet_probe :: "memory \<Rightarrow> Hashmap \<Rightarrow> ptr \<Rightarrow> u32 \<Rightarrow> nat \<Rightarrow> u32 \<Rightarrow> ptr" where
  "hashmapGet_probe mem h k len 0 cur = 0"
| "hashmapGet_probe mem h k len (Suc n) cur =
     (if used (data_hm h ! unat cur) \<and> hashmapCheckIfMatch mem (data_hm h ! unat cur) k len
      then data (data_hm h ! unat cur)
      else hashmapGet_probe mem h k len n ((cur + 1) mod tableSize h))"

definition hashmapGet :: "memory \<Rightarrow> Hashmap \<Rightarrow> ptr \<Rightarrow> u32 \<Rightarrow> ptr" where
  "hashmapGet mem h k len =
     hashmapGet_probe mem h k len HASHMAP_MAX_CHAIN_LENGTH (hashmapStringHasher mem h k len)"

fun hashmapRemove_probe :: "memory \<Rightarrow> Hashmap \<Rightarrow> ptr \<Rightarrow> u32 \<Rightarrow> nat \<Rightarrow> u32 \<Rightarrow> int \<times> Hashmap" where
  "hashmapRemove_probe mem h k len 0 cur = (1, h)"
| "hashmapRemove_probe mem h k len (Suc n) cur =
     (if used (data_hm h ! unat cur) \<and> hashmapCheckIfMatch mem (data_hm h ! unat cur) k len
      then (0, h\<lparr>data_hm := (data_hm h)[unat cur := zero_element], size_hm := size_hm h - 1\<rparr>)
      else hashmapRemove_probe mem h k len n ((cur + 1) mod tableSize h))"

definition hashmapRemove :: "memory \<Rightarrow> Hashmap \<Rightarrow> ptr \<Rightarrow> u32 \<Rightarrow> int \<times> Hashmap" where
  "hashmapRemove mem h k len =
     hashmapRemove_probe mem h k len HASHMAP_MAX_CHAIN_LENGTH (hashmapStringHasher mem h k len)"

section \<open>hashmapApplyIterator\<close>

text \<open>
  A visitor \<open>f(context, elem)\<close> returns an \<open>int\<close>. It may change what it reaches through
  \<open>context\<close> and its globals: that state is the argument \<open>ctx\<close>, which the visitor returns
  updated. It gets \<open>elem\<close> as a pointer into the bucket array whose pointee is not
  \<open>const\<close>, so it may also write the slot: the visitor takes the element that the slot holds
  and returns the element it leaves there, which the loop writes back before it looks at
  the return value. A visitor that does not return is \<open>None\<close>.
  The loop \<open>for (i = 0; i < tableSize; i++)\<close> runs over the list of its indices.
\<close>

type_synonym 'c visitor = "'c \<Rightarrow> HashmapElement \<Rightarrow> (int \<times> 'c \<times> HashmapElement) option"

fun applyIterator_loop :: "'c visitor \<Rightarrow> nat list \<Rightarrow> Hashmap \<Rightarrow> 'c \<Rightarrow> (int \<times> Hashmap \<times> 'c) option" where
  "applyIterator_loop f [] h ctx = Some (0, h, ctx)"
| "applyIterator_loop f (i # is) h ctx =
     (if used (data_hm h ! i) then
        (case f ctx (data_hm h ! i) of
           None \<Rightarrow> None
         | Some (retFlag, ctx', elem) \<Rightarrow>
             (let h1 = h\<lparr>data_hm := (data_hm h)[i := elem]\<rparr> in
              if retFlag = - 1
              then applyIterator_loop f is
                     (h1\<lparr>data_hm := (data_hm h1)[i := zero_element], size_hm := size_hm h1 - 1\<rparr>) ctx'
              else if retFlag = 0 then applyIterator_loop f is h1 ctx'
              else Some (1, h1, ctx')))
      else applyIterator_loop f is h ctx)"

definition hashmapApplyIterator :: "'c visitor \<Rightarrow> Hashmap \<Rightarrow> 'c \<Rightarrow> (int \<times> Hashmap \<times> 'c) option" where
  "hashmapApplyIterator f h ctx = applyIterator_loop f [0..<unat (tableSize h)] h ctx"

section \<open>hashmapPut, hashmapRehashIterator, hashmapExpand\<close>

text \<open>
  \<open>hashmapPut\<close> calls \<open>hashmapExpand\<close>, which calls \<open>hashmapPut\<close> on the new table through
  \<open>hashmapRehashIterator\<close>. The recursion is cut by fuel: \<open>hashmapPut\<close> takes the number
  of nested calls and loop rounds it may still make and is \<open>None\<close> when it runs out
  (\<open>hashmapPut_returns\<close> below: 32 is enough for every table of a valid capacity).
  \<open>hashmapRehashIterator_with\<close> and \<open>hashmapExpand_with\<close> are the two functions of the
  source with the \<open>hashmapPut\<close> they call as a parameter. The context of the rehash
  visitor is the new table together with the allocator, which \<open>hashmapPut\<close> may call; the
  rehash visitor reads its element and leaves it as it is.
\<close>

definition put_element :: "Hashmap \<Rightarrow> u32 \<Rightarrow> ptr \<Rightarrow> u32 \<Rightarrow> ptr \<Rightarrow> Hashmap" where
  "put_element h outIndex k len v =
     (let e = (data_hm h ! unat outIndex)\<lparr>data := v, key := k, keyLen := len\<rparr> in
      if \<not> used e
      then h\<lparr>data_hm := (data_hm h)[unat outIndex := e\<lparr>used := True\<rparr>], size_hm := size_hm h + 1\<rparr>
      else h\<lparr>data_hm := (data_hm h)[unat outIndex := e]\<rparr>)"

type_synonym put_fun =
  "memory \<Rightarrow> Hashmap \<Rightarrow> ptr \<Rightarrow> u32 \<Rightarrow> ptr \<Rightarrow> allocator \<Rightarrow> (int \<times> Hashmap \<times> allocator) option"

definition hashmapRehashIterator_with :: "put_fun \<Rightarrow> memory \<Rightarrow> (Hashmap \<times> allocator) visitor" where
  "hashmapRehashIterator_with put mem newHashmap element =
     (case put mem (fst newHashmap) (key element) (keyLen element) (data element) (snd newHashmap) of
        None \<Rightarrow> None
      | Some (flag, new', a') \<Rightarrow> Some (if flag \<noteq> 0 then 1 else - 1, (new', a'), element))"

text \<open>The local \<open>Hashmap newHash\<close> of \<open>hashmapExpand\<close> before \<open>hashmapCreate\<close> fills it.\<close>

definition newHash_initial :: Hashmap where
  "newHash_initial = \<lparr>tableSize = 0, size_hm = 0, data_hm = []\<rparr>"

definition hashmapExpand_with :: "put_fun \<Rightarrow> memory \<Rightarrow> Hashmap \<Rightarrow> allocator \<Rightarrow> (int \<times> Hashmap \<times> allocator) option" where
  "hashmapExpand_with put mem hashmap a =
     (let newSize = 2 * tableSize hashmap in
      case hashmapCreate newSize newHash_initial a of
        (flag, newHash, a1) \<Rightarrow>
          if flag \<noteq> 0 then Some (flag, hashmap, a1)
          else (case hashmapApplyIterator (hashmapRehashIterator_with put mem) hashmap (newHash, a1) of
                  None \<Rightarrow> None
                | Some (flag2, hashmap2, (newHash2, a2)) \<Rightarrow>
                    if flag2 \<noteq> 0 then Some (flag2, hashmap2, a2)
                    else (let destroyed = hashmapDestroy hashmap2 in Some (0, newHash2, a2))))"

primrec hashmapPut :: "nat \<Rightarrow> put_fun" where
  "hashmapPut 0 mem hashmap k len v a = None"
| "hashmapPut (Suc fuel) mem hashmap k len v a =
     (case hashmapGetBucket mem hashmap k len of
        Some outIndex \<Rightarrow> Some (0, put_element hashmap outIndex k len v, a)
      | None \<Rightarrow>
          (case hashmapExpand_with (hashmapPut fuel) mem hashmap a of
             None \<Rightarrow> None
           | Some (flag, hashmap', a') \<Rightarrow>
               if flag \<noteq> 0 then Some (1, hashmap', a')
               else hashmapPut fuel mem hashmap' k len v a'))"

definition hashmapRehashIterator :: "nat \<Rightarrow> memory \<Rightarrow> (Hashmap \<times> allocator) visitor" where
  "hashmapRehashIterator fuel = hashmapRehashIterator_with (hashmapPut fuel)"

definition hashmapExpand :: "nat \<Rightarrow> memory \<Rightarrow> Hashmap \<Rightarrow> allocator \<Rightarrow> (int \<times> Hashmap \<times> allocator) option" where
  "hashmapExpand fuel = hashmapExpand_with (hashmapPut fuel)"

section \<open>hashmapDestroyWithOwnership\<close>

text \<open>
  The visitor gets \<open>NULL\<close> as its context, so what it changes is global state: \<open>ctx\<close>. The
  result holds whether the failure message was printed.
\<close>

definition hashmapDestroyWithOwnership :: "'c visitor \<Rightarrow> Hashmap \<Rightarrow> 'c \<Rightarrow> (bool \<times> Hashmap \<times> 'c) option" where
  "hashmapDestroyWithOwnership iterator hashmap ctx =
     (case hashmapApplyIterator iterator hashmap ctx of
        None \<Rightarrow> None
      | Some (flag, hashmap', ctx') \<Rightarrow> Some (flag \<noteq> 0, hashmapDestroy hashmap', ctx'))"

section \<open>Notions of the specification\<close>

text \<open>A capacity is valid when it is one of \<open>2\<^sup>0\<close>, ..., \<open>2\<^sup>3\<^sup>1\<close>.\<close>

definition power_of_two :: "u32 \<Rightarrow> bool" where
  "power_of_two x \<longleftrightarrow> (\<exists>k\<in>{..<32::nat}. x = 2 ^ k)"

text \<open>A memory holding the bytes \<open>bs\<close> from address 0 on, and 0 elsewhere.\<close>

definition memory_of :: "u8 list \<Rightarrow> memory" where
  "memory_of bs a = (if a < length bs then bs ! a else 0)"

text \<open>Two memories that hold the key \<open>life\<close>, at addresses 0 and 5 and at address 3.\<close>

definition bytes1 :: "u8 list" where
  "bytes1 = [0x6c, 0x69, 0x66, 0x65, 0, 0x6c, 0x69, 0x66, 0x65, 0]"

definition bytes2 :: "u8 list" where
  "bytes2 = [0x74, 0x65, 0x73, 0x6c, 0x69, 0x66, 0x65, 0x74]"

text \<open>\<open>slot h c\<close> is \<open>hashmap->data[c]\<close>.\<close>

definition slot :: "Hashmap \<Rightarrow> u32 \<Rightarrow> HashmapElement" where
  "slot h c = data_hm h ! unat c"

text \<open>
  The probe window: the \<open>n\<close> indices visited from \<open>cur\<close> on, stepping by
  \<open>(cur + 1) % tableSize\<close>.
\<close>

fun probe_window :: "u32 \<Rightarrow> u32 \<Rightarrow> nat \<Rightarrow> u32 list" where
  "probe_window ts cur 0 = []"
| "probe_window ts cur (Suc n) = cur # probe_window ts ((cur + 1) mod ts) n"

definition key_window :: "memory \<Rightarrow> Hashmap \<Rightarrow> ptr \<Rightarrow> u32 \<Rightarrow> u32 list" where
  "key_window mem h k len =
     probe_window (tableSize h) (hashmapStringHasher mem h k len) HASHMAP_MAX_CHAIN_LENGTH"

definition matches :: "memory \<Rightarrow> Hashmap \<Rightarrow> ptr \<Rightarrow> u32 \<Rightarrow> u32 \<Rightarrow> bool" where
  "matches mem h k len c \<longleftrightarrow> used (slot h c) \<and> hashmapCheckIfMatch mem (slot h c) k len"

text \<open>
  The four steps of the probe locator's contract (section 4.3 of the specification), in the
  specification's words.
\<close>

definition getBucket_contract :: "memory \<Rightarrow> Hashmap \<Rightarrow> ptr \<Rightarrow> u32 \<Rightarrow> u32 option" where
  "getBucket_contract mem h k len =
     (if size_hm h \<ge> tableSize h then None
      else case find (matches mem h k len) (key_window mem h k len) of
             Some c \<Rightarrow> Some c
           | None \<Rightarrow>
               if \<exists>c \<in> set (key_window mem h k len). \<not> used (slot h c)
               then find (\<lambda>c. \<not> used (slot h c)) (key_window mem h k len)
               else None)"

section \<open>An example table\<close>

text \<open>
  The keys \<open>dg\<close>, \<open>dn\<close>, \<open>t\<close>, \<open>c\<close>, \<open>d\<close>, \<open>w\<close>, \<open>ab\<close>, \<open>f\<close>, \<open>ak\<close>, \<open>j\<close> lie at the addresses
  0, 2, 4, 5, 6, 7, 8, 10, 11, 13 of \<open>mem_ex\<close>. Their hashes modulo 32 are
  31, 31, 0, 1, 2, 3, 4, 5, 6, 16.
\<close>

definition key_store :: "u8 list" where
  "key_store =
     [0x64, 0x67, 0x64, 0x6e, 0x74, 0x63, 0x64, 0x77, 0x61, 0x62, 0x66, 0x61, 0x6b, 0x6a]"

definition mem_ex :: memory where
  "mem_ex = memory_of key_store"

definition entry :: "ptr \<Rightarrow> u32 \<Rightarrow> ptr \<Rightarrow> HashmapElement" where
  "entry k len v = \<lparr>key = k, keyLen = len, used = True, data = v\<rparr>"

text \<open>
  \<open>table9\<close> is the table after \<open>hashmapCreate(16, ...)\<close> and nine calls of \<open>hashmapPut\<close>, for
  the first nine keys in the order above with the values 101, ..., 109
  (\<open>table9_reached\<close> below). \<open>table8\<close> is \<open>table9\<close> after the key \<open>t\<close> was removed.
\<close>

definition table9 :: Hashmap where
  "table9 =
     \<lparr>tableSize = 16, size_hm = 9,
      data_hm =
        [entry 2 2 102, entry 4 1 103, entry 5 1 104, entry 6 1 105, entry 7 1 106,
         entry 8 2 107, entry 10 1 108, entry 11 2 109]
        @ replicate 7 zero_element @ [entry 0 2 101]\<rparr>"

definition table8 :: Hashmap where
  "table8 =
     \<lparr>tableSize = 16, size_hm = 8,
      data_hm =
        [entry 2 2 102, zero_element, entry 5 1 104, entry 6 1 105, entry 7 1 106,
         entry 8 2 107, entry 10 1 108, entry 11 2 109]
        @ replicate 7 zero_element @ [entry 0 2 101]\<rparr>"

text \<open>\<open>put_all\<close> calls \<open>hashmapPut\<close> for each triple of the list, as long as it returns 0.\<close>

fun put_all :: "memory \<Rightarrow> Hashmap \<Rightarrow> allocator \<Rightarrow> (ptr \<times> u32 \<times> ptr) list \<Rightarrow> (int \<times> Hashmap \<times> allocator) option" where
  "put_all mem h a [] = Some (0, h, a)"
| "put_all mem h a ((k, len, v) # xs) =
     (case hashmapPut 32 mem h k len v a of
        None \<Rightarrow> None
      | Some (flag, h', a') \<Rightarrow> if flag = 0 then put_all mem h' a' xs else Some (flag, h', a'))"

text \<open>A table of capacity 1 that holds the key \<open>t\<close>.\<close>

definition table_full :: Hashmap where
  "table_full = \<lparr>tableSize = 1, size_hm = 1, data_hm = [entry 4 1 103]\<rparr>"

section \<open>Iteration, in the specification's words\<close>

text \<open>The indices of the occupied slots, in ascending order.\<close>

definition occupied :: "Hashmap \<Rightarrow> nat list" where
  "occupied h = filter (\<lambda>i. used (data_hm h ! i)) [0..<unat (tableSize h)]"

text \<open>A slot is removed: its fields are zeroed and the count goes down by one.\<close>

definition clear_slot :: "Hashmap \<Rightarrow> nat \<Rightarrow> Hashmap" where
  "clear_slot h i = h\<lparr>data_hm := (data_hm h)[i := zero_element], size_hm := size_hm h - 1\<rparr>"

text \<open>A slot is left as a visitor wrote it.\<close>

definition write_slot :: "Hashmap \<Rightarrow> nat \<Rightarrow> HashmapElement \<Rightarrow> Hashmap" where
  "write_slot h i e = h\<lparr>data_hm := (data_hm h)[i := e]\<rparr>"

text \<open>
  The visitor is called for the slots of the list \<open>is\<close>, one call per index, in the order of
  the list, with the element that the table \<open>h0\<close> holds there: \<open>-1\<close> removes the slot and goes
  on, \<open>0\<close> goes on with the slot as the visitor left it, any other result stops at once, and
  the traversal reports 1.
\<close>

fun visit_slots :: "'c visitor \<Rightarrow> Hashmap \<Rightarrow> nat list \<Rightarrow> Hashmap \<Rightarrow> 'c \<Rightarrow> (int \<times> Hashmap \<times> 'c) option" where
  "visit_slots f h0 [] h ctx = Some (0, h, ctx)"
| "visit_slots f h0 (i # is) h ctx =
     (case f ctx (data_hm h0 ! i) of
        None \<Rightarrow> None
      | Some (retFlag, ctx', elem) \<Rightarrow>
          if retFlag = - 1 then visit_slots f h0 is (clear_slot h i) ctx'
          else if retFlag = 0 then visit_slots f h0 is (write_slot h i elem) ctx'
          else Some (1, write_slot h i elem, ctx'))"

text \<open>A visitor that also records the elements it is called with, in the order of the calls.\<close>

definition logging :: "'c visitor \<Rightarrow> ('c \<times> HashmapElement list) visitor" where
  "logging f = (\<lambda>(ctx, calls) elem.
     case f ctx elem of
       None \<Rightarrow> None
     | Some (retFlag, ctx', elem') \<Rightarrow> Some (retFlag, (ctx', calls @ [elem]), elem'))"

text \<open>A visitor that never stops and always returns.\<close>

definition never_stops :: "'c visitor \<Rightarrow> bool" where
  "never_stops f \<longleftrightarrow>
     (\<forall>ctx elem. \<exists>retFlag ctx' elem'.
        f ctx elem = Some (retFlag, ctx', elem') \<and> (retFlag = 0 \<or> retFlag = - 1))"

text \<open>The visitor that counts its calls and asks for removal, as a freeing visitor does.\<close>

definition counting_visitor :: "nat visitor" where
  "counting_visitor n elem = Some (- 1, Suc n, elem)"

text \<open>
  A visitor that sets the key reference and the key length of its slot to those of the key
  \<open>t\<close> (address 4, length 1) and goes on.
\<close>

definition rekey_visitor :: "unit visitor" where
  "rekey_visitor ctx elem = Some (0, ctx, elem\<lparr>key := 4, keyLen := 1\<rparr>)"

text \<open>\<open>table9\<close> after \<open>hashmapApplyIterator\<close> with \<open>rekey_visitor\<close>.\<close>

definition table9_rekeyed :: Hashmap where
  "table9_rekeyed =
     \<lparr>tableSize = 16, size_hm = 9,
      data_hm =
        [entry 4 1 102, entry 4 1 103, entry 4 1 104, entry 4 1 105, entry 4 1 106,
         entry 4 1 107, entry 4 1 108, entry 4 1 109]
        @ replicate 7 zero_element @ [entry 4 1 101]\<rparr>"

section \<open>Valid tables\<close>

text \<open>The bytes of the key that an element refers to.\<close>

definition slot_key :: "memory \<Rightarrow> HashmapElement \<Rightarrow> u8 list" where
  "slot_key mem e = key_bytes mem (key e) (keyLen e)"

text \<open>Slot \<open>i\<close> lies in the probe window of the key it holds.\<close>

definition in_window :: "memory \<Rightarrow> Hashmap \<Rightarrow> nat \<Rightarrow> bool" where
  "in_window mem h i \<longleftrightarrow>
     i \<in> unat ` set (key_window mem h (key (data_hm h ! i)) (keyLen (data_hm h ! i)))"

text \<open>
  A valid table: the capacity is a power of two, the array has that many slots, the count is
  the number of occupied slots, every occupied slot lies in the window of its key, and no two
  occupied slots hold the same key (the same bytes, hence the same length).
\<close>

definition hashmap_inv :: "memory \<Rightarrow> Hashmap \<Rightarrow> bool" where
  "hashmap_inv mem h \<longleftrightarrow>
     power_of_two (tableSize h) \<and>
     length (data_hm h) = unat (tableSize h) \<and>
     unat (size_hm h) = length (filter used (data_hm h)) \<and>
     (\<forall>i \<in> {..<length (data_hm h)}. used (data_hm h ! i) \<longrightarrow> in_window mem h i) \<and>
     (\<forall>i \<in> {..<length (data_hm h)}. \<forall>j \<in> {..<length (data_hm h)}.
        used (data_hm h ! i) \<and> used (data_hm h ! j) \<and>
        slot_key mem (data_hm h ! i) = slot_key mem (data_hm h ! j) \<longrightarrow> i = j)"

text \<open>The key-value pairs that a table holds, keys as byte sequences.\<close>

definition entries :: "memory \<Rightarrow> Hashmap \<Rightarrow> (u8 list \<times> ptr) set" where
  "entries mem h = set (map (\<lambda>e. (slot_key mem e, data e)) (filter used (data_hm h)))"

text \<open>The key \<open>k\<close> of length \<open>len\<close> is present: some occupied slot holds its bytes.\<close>

definition present :: "memory \<Rightarrow> Hashmap \<Rightarrow> ptr \<Rightarrow> u32 \<Rightarrow> bool" where
  "present mem h k len \<longleftrightarrow> key_bytes mem k len \<in> fst ` entries mem h"

text \<open>
  A visitor keeps the key of its slot: the element it leaves in an occupied slot is occupied
  and holds the same key bytes (hence the same length); the key reference and the value may
  change. A visitor leaves its slot as it is when it returns the element it was given.
\<close>

definition keeps_key :: "memory \<Rightarrow> 'c visitor \<Rightarrow> bool" where
  "keeps_key mem f \<longleftrightarrow>
     (\<forall>ctx e retFlag ctx' e'.
        used e \<and> f ctx e = Some (retFlag, ctx', e') \<longrightarrow>
          used e' \<and> slot_key mem e' = slot_key mem e)"

definition leaves_slot :: "'c visitor \<Rightarrow> bool" where
  "leaves_slot f \<longleftrightarrow> (\<forall>ctx e retFlag ctx' e'. f ctx e = Some (retFlag, ctx', e') \<longrightarrow> e' = e)"

text \<open>
  What a call of \<open>put\<close> on a valid table guarantees when it returns: the table stays valid; on
  success (0) the key is bound to the new value, the other entries stay, the count grows by
  one exactly when the key was absent, and some slot holds the key reference, the length and
  the value just given; on failure (1) no entry is new (entries may be lost, and the capacity
  may have grown in an earlier round of the loop).
\<close>

definition put_spec :: "memory \<Rightarrow> put_fun \<Rightarrow> bool" where
  "put_spec mem put \<longleftrightarrow>
     (\<forall>h k len v a flag h' a'.
        hashmap_inv mem h \<and> put mem h k len v a = Some (flag, h', a') \<longrightarrow>
          hashmap_inv mem h' \<and> (flag = 0 \<or> flag = 1) \<and>
          (flag = 0 \<longrightarrow>
             entries mem h' =
               {(b, x) \<in> entries mem h. b \<noteq> key_bytes mem k len} \<union> {(key_bytes mem k len, v)} \<and>
             unat (size_hm h') = unat (size_hm h) + (if present mem h k len then 0 else 1) \<and>
             (\<exists>i < length (data_hm h'). data_hm h' ! i = entry k len v)) \<and>
          (flag \<noteq> 0 \<longrightarrow> entries mem h' \<subseteq> entries mem h))"

text \<open>
  A call of \<open>put\<close> that returns keeps the capacity a power of two and does not shrink it.
\<close>

definition capacity_spec :: "memory \<Rightarrow> put_fun \<Rightarrow> bool" where
  "capacity_spec mem put \<longleftrightarrow>
     (\<forall>h k len v a flag h' a'.
        power_of_two (tableSize h) \<and> put mem h k len v a = Some (flag, h', a') \<longrightarrow>
          power_of_two (tableSize h') \<and> tableSize h \<le> tableSize h')"

section \<open>Reachable tables\<close>

text \<open>
  The tables that a successful \<open>hashmapCreate\<close> and any sequence of \<open>hashmapPut\<close>,
  \<open>hashmapRemove\<close>, \<open>hashmapApplyIterator\<close> (with a visitor from \<open>V\<close>) and \<open>hashmapExpand\<close> lead
  to, whatever these calls return. \<open>hashmapGet\<close> takes the table through a pointer to
  \<open>const\<close> and returns a value only, so it leads to no other table.
\<close>

inductive reachable :: "memory \<Rightarrow> 'c visitor set \<Rightarrow> Hashmap \<Rightarrow> bool"
  for mem :: memory and V :: "'c visitor set" where
  reach_create:
    "hashmapCreate initialSize out a = (0, h, a') \<Longrightarrow> reachable mem V h"
| reach_put:
    "reachable mem V h \<Longrightarrow> hashmapPut fuel mem h k len v a = Some (flag, h', a') \<Longrightarrow>
     reachable mem V h'"
| reach_remove:
    "reachable mem V h \<Longrightarrow> hashmapRemove mem h k len = (flag, h') \<Longrightarrow> reachable mem V h'"
| reach_iterate:
    "reachable mem V h \<Longrightarrow> f \<in> V \<Longrightarrow> hashmapApplyIterator f h ctx = Some (flag, h', ctx') \<Longrightarrow>
     reachable mem V h'"
| reach_expand:
    "reachable mem V h \<Longrightarrow> hashmapExpand fuel mem h a = Some (flag, h', a') \<Longrightarrow>
     reachable mem V h'"

text \<open>\<open>table9\<close> after \<open>hashmapApplyIterator\<close> with \<open>counting_visitor\<close>.\<close>

definition table0 :: Hashmap where
  "table0 = \<lparr>tableSize = 16, size_hm = 0, data_hm = replicate 16 zero_element\<rparr>"

text \<open>What is left of \<open>table9\<close> after the growth that fails half way.\<close>

definition table1 :: Hashmap where
  "table1 = \<lparr>tableSize = 16, size_hm = 1, data_hm = replicate 15 zero_element @ [entry 0 2 101]\<rparr>"

section \<open>Capacities, creation and hashing\<close>

lemma nat_and_pred_zero:
  fixes n :: nat
  shows "0 < n \<Longrightarrow> n AND (n - 1) = 0 \<Longrightarrow> \<exists>k. n = 2 ^ k"
proof (induction n rule: less_induct)
  case (less n)
  show ?case
  proof (cases "even n")
    case True
    then obtain m where m: "n = 2 * m" by (auto elim: evenE)
    with less.prems have mpos: "0 < m" by simp
    have "n - 1 = 2 * (m - 1) + 1" using m mpos by simp
    then have "n AND (n - 1) = 2 * (m AND (m - 1))"
      using m by (subst and_nat_rec) simp
    with less.prems have "m AND (m - 1) = 0" by simp
    moreover have "m < n" using m mpos by simp
    ultimately obtain k where "m = 2 ^ k" using less.IH mpos by blast
    then have "n = 2 ^ Suc k" using m by simp
    then show ?thesis by blast
  next
    case False
    then obtain m where m: "n = 2 * m + 1" by (auto elim: oddE)
    then have "n AND (n - 1) = 2 * m"
      by (subst and_nat_rec) simp
    with less.prems m have "n = 2 ^ 0" by simp
    then show ?thesis by blast
  qed
qed

lemma pow2_and_pred: "(2 ^ k :: 32 word) AND (2 ^ k - 1) = 0"
  unfolding mask_eq_exp_minus_1 [symmetric]
  by (rule bit_eqI) (auto simp add: bit_simps)

lemma word_and_pred_pow2:
  fixes x :: "32 word"
  assumes "x \<noteq> 0" "x AND (x - 1) = 0"
  shows "\<exists>k<32. x = 2 ^ k"
proof -
  have "unat (x AND (x - 1)) = unat x AND (unat x - 1)"
    using assms(1) by (simp add: unsigned_and_eq unat_minus_one)
  with assms(2) have "unat x AND (unat x - 1) = 0" by simp
  moreover have "0 < unat x" using assms(1) by (simp add: unat_gt_0)
  ultimately obtain k where k: "unat x = 2 ^ k" using nat_and_pred_zero by blast
  have lt: "unat x < 2 ^ LENGTH(32)" by (rule unsigned_less)
  have "k < LENGTH(32)"
    by (rule power_less_imp_less_exp [of 2]) (simp, rule lt [unfolded k])
  then have k32: "k < 32" by simp
  have "x = of_nat (unat x)" by simp
  also have "\<dots> = 2 ^ k" unfolding k by simp
  finally show ?thesis using k32 by blast
qed

lemma capacity_check_iff:
  "(x = 0 \<or> (x AND (x - 1)) \<noteq> 0) \<longleftrightarrow> \<not> power_of_two x"
proof -
  have "power_of_two x \<Longrightarrow> x \<noteq> 0 \<and> x AND (x - 1) = 0"
    by (auto simp: power_of_two_def pow2_and_pred)
  moreover have "x \<noteq> 0 \<Longrightarrow> x AND (x - 1) = 0 \<Longrightarrow> power_of_two x"
    using word_and_pred_pow2 [of x] by (auto simp: power_of_two_def)
  ultimately show ?thesis by blast
qed

lemma calloc_cases:
  "calloc n a = (None, tl a) \<or> calloc n a = (Some (replicate n zero_element), tl a)"
  by (auto simp: calloc_def split: list.splits)

text \<open>
  Claim C7. \<open>hashmapCreate\<close> rejects a capacity (returns 1, without calling the allocator)
  exactly when it is 0 or no power of two; for a valid capacity it returns 1 when \<open>calloc\<close>
  fails and otherwise 0 with a table of count 0 whose slots are all zero, hence unoccupied.
  The source reports both failures by the same return value 1.
\<close>

theorem hashmapCreate_contract:
  "(fst (hashmapCreate initialSize out a) \<noteq> 0 \<longleftrightarrow>
      \<not> power_of_two initialSize \<or> fst (calloc (unat initialSize) a) = None) \<and>
   (\<not> power_of_two initialSize \<longrightarrow>
      hashmapCreate initialSize out a = (1, out\<lparr>tableSize := initialSize, size_hm := 0\<rparr>, a)) \<and>
   (power_of_two initialSize \<and> fst (calloc (unat initialSize) a) = None \<longrightarrow>
      fst (hashmapCreate initialSize out a) = 1) \<and>
   (power_of_two initialSize \<and> fst (calloc (unat initialSize) a) \<noteq> None \<longrightarrow>
      hashmapCreate initialSize out a =
        (0, out\<lparr>tableSize := initialSize, size_hm := 0,
                 data_hm := replicate (unat initialSize) zero_element\<rparr>, tl a)) \<and>
   (fst (hashmapCreate initialSize out a) = 0 \<longrightarrow>
      size_hm (fst (snd (hashmapCreate initialSize out a))) = 0 \<and>
      length (data_hm (fst (snd (hashmapCreate initialSize out a)))) = unat initialSize \<and>
      (\<forall>e \<in> set (data_hm (fst (snd (hashmapCreate initialSize out a)))). \<not> used e))"
  using calloc_cases [of "unat initialSize" a] capacity_check_iff [of initialSize]
  by (auto simp: hashmapCreate_def Let_def zero_element_def split: option.splits prod.splits)

theorem hashmapCreate_contract_witness:
  "\<not> power_of_two 0 \<and> fst (hashmapCreate 0 newHash_initial []) = 1 \<and>
   \<not> power_of_two 3 \<and> fst (hashmapCreate 3 newHash_initial []) = 1 \<and>
   power_of_two 8 \<and> fst (calloc (unat (8 :: u32)) [False]) = None \<and>
   fst (hashmapCreate 8 newHash_initial [False]) = 1 \<and>
   fst (calloc (unat (8 :: u32)) []) \<noteq> None \<and>
   hashmapCreate 8 newHash_initial [] =
     (0, \<lparr>tableSize = 8, size_hm = 0, data_hm = replicate 8 zero_element\<rparr>, [])"
  using hashmapCreate_contract [of 0 newHash_initial "[]"]
    hashmapCreate_contract [of 3 newHash_initial "[]"]
    hashmapCreate_contract [of 8 newHash_initial "[False]"]
    hashmapCreate_contract [of 8 newHash_initial "[]"]
  by (simp add: power_of_two_def calloc_def newHash_initial_def lessThan_nat_numeral lessThan_Suc)

text \<open>
  Claim C8. The bucket index that \<open>hashmapStringHasher\<close> returns depends on the key's bytes,
  its length and the capacity only (not on where the key lies in memory, nor on the rest of
  the table), and it is less than the capacity when the capacity is not 0.
\<close>

theorem hashmapStringHasher_pure:
  "(key_bytes mem1 p1 len = key_bytes mem2 p2 len \<and> tableSize h1 = tableSize h2 \<longrightarrow>
      hashmapStringHasher mem1 h1 p1 len = hashmapStringHasher mem2 h2 p2 len) \<and>
   (tableSize h1 \<noteq> 0 \<longrightarrow> hashmapStringHasher mem1 h1 p1 len < tableSize h1)"
proof (intro conjI impI)
  assume "key_bytes mem1 p1 len = key_bytes mem2 p2 len \<and> tableSize h1 = tableSize h2"
  then show "hashmapStringHasher mem1 h1 p1 len = hashmapStringHasher mem2 h2 p2 len"
    by (simp add: hashmapStringHasher_def hashmapCRC32_def)
next
  assume "tableSize h1 \<noteq> 0"
  then have "0 < tableSize h1" by (simp add: word_neq_0_conv)
  then show "hashmapStringHasher mem1 h1 p1 len < tableSize h1"
    unfolding hashmapStringHasher_def Let_def by (rule word_mod_less_divisor)
qed

theorem hashmapStringHasher_pure_witness:
  "key_bytes (memory_of bytes1) 5 4 = key_bytes (memory_of bytes2) 3 4 \<and>
   tableSize \<lparr>tableSize = 16, size_hm = 0, data_hm = replicate 16 zero_element\<rparr> =
   tableSize \<lparr>tableSize = 16, size_hm = 3, data_hm = []\<rparr> \<and>
   hashmapStringHasher (memory_of bytes1) \<lparr>tableSize = 16, size_hm = 0, data_hm = replicate 16 zero_element\<rparr> 5 4 =
   hashmapStringHasher (memory_of bytes2) \<lparr>tableSize = 16, size_hm = 3, data_hm = []\<rparr> 3 4 \<and>
   hashmapStringHasher (memory_of bytes1) \<lparr>tableSize = 16, size_hm = 0, data_hm = replicate 16 zero_element\<rparr> 5 4 = 4 \<and>
   (4 :: u32) < 16"
proof -
  have b: "key_bytes (memory_of bytes1) 5 4 = key_bytes (memory_of bytes2) 3 4"
    by code_simp
  have v: "hashmapStringHasher (memory_of bytes1) \<lparr>tableSize = 16, size_hm = 0, data_hm = replicate 16 zero_element\<rparr> 5 4 = 4"
    by code_simp
  show ?thesis
    using b v hashmapStringHasher_pure [of "memory_of bytes1" 5 4 "memory_of bytes2" 3
        "\<lparr>tableSize = 16, size_hm = 0, data_hm = replicate 16 zero_element\<rparr>"
        "\<lparr>tableSize = 16, size_hm = 3, data_hm = []\<rparr>"]
    by simp
qed

text \<open>
  Claim C10. \<open>hashmapCreate\<close> writes \<open>tableSize\<close> and \<open>size\<close> into the output structure
  before it checks the capacity: a call with an invalid capacity fails and leaves the output
  with that capacity as \<open>tableSize\<close>, with \<open>size\<close> 0 and with the \<open>data\<close> it had.
\<close>

theorem hashmapCreate_invalid_capacity_output:
  "tableSize (fst (snd (hashmapCreate initialSize out a))) = initialSize \<and>
   size_hm (fst (snd (hashmapCreate initialSize out a))) = 0 \<and>
   (initialSize = 0 \<or> \<not> power_of_two initialSize \<longrightarrow>
      hashmapCreate initialSize out a = (1, out\<lparr>tableSize := initialSize, size_hm := 0\<rparr>, a) \<and>
      data_hm (fst (snd (hashmapCreate initialSize out a))) = data_hm out)"
  using capacity_check_iff [of initialSize]
  by (auto simp: hashmapCreate_def Let_def split: option.splits prod.splits)

theorem hashmapCreate_invalid_capacity_output_witness:
  "\<not> power_of_two 12 \<and>
   hashmapCreate 12 \<lparr>tableSize = 8, size_hm = 5, data_hm = [zero_element]\<rparr> [] =
     (1, \<lparr>tableSize = 12, size_hm = 0, data_hm = [zero_element]\<rparr>, []) \<and>
   hashmapCreate 0 \<lparr>tableSize = 8, size_hm = 5, data_hm = [zero_element]\<rparr> [] =
     (1, \<lparr>tableSize = 0, size_hm = 0, data_hm = [zero_element]\<rparr>, [])"
  using hashmapCreate_invalid_capacity_output [of 12 "\<lparr>tableSize = 8, size_hm = 5, data_hm = [zero_element]\<rparr>" "[]"]
    hashmapCreate_invalid_capacity_output [of 0 "\<lparr>tableSize = 8, size_hm = 5, data_hm = [zero_element]\<rparr>" "[]"]
  by (simp add: power_of_two_def lessThan_nat_numeral lessThan_Suc)

section \<open>Probing\<close>

lemma length_probe_window [simp]: "length (probe_window ts cur n) = n"
  by (induction n arbitrary: cur) auto

lemma getBucket_match_find:
  "getBucket_match mem h k len n cur t =
     (case find (matches mem h k len) (probe_window (tableSize h) cur n) of
        Some c \<Rightarrow> Inl c
      | None \<Rightarrow> Inr (t + int (length (filter (\<lambda>c. used (slot h c)) (probe_window (tableSize h) cur n)))))"
  by (induction n arbitrary: cur t) (auto simp: matches_def slot_def Let_def split: option.splits)

lemma getBucket_free_find:
  "getBucket_free h n cur = find (\<lambda>c. \<not> used (slot h c)) (probe_window (tableSize h) cur n)"
  by (induction n arbitrary: cur) (auto simp: slot_def)

lemma hashmapGet_probe_find:
  "hashmapGet_probe mem h k len n cur =
     (case find (matches mem h k len) (probe_window (tableSize h) cur n) of
        Some c \<Rightarrow> data (slot h c)
      | None \<Rightarrow> 0)"
  by (induction n arbitrary: cur) (auto simp: matches_def slot_def)

lemma hashmapRemove_probe_find:
  "hashmapRemove_probe mem h k len n cur =
     (case find (matches mem h k len) (probe_window (tableSize h) cur n) of
        Some c \<Rightarrow> (0, h\<lparr>data_hm := (data_hm h)[unat c := zero_element], size_hm := size_hm h - 1\<rparr>)
      | None \<Rightarrow> (1, h))"
  by (induction n arbitrary: cur) (auto simp: matches_def slot_def)

lemma filter_all_length: "length (filter P xs) < length xs \<longleftrightarrow> (\<exists>x \<in> set xs. \<not> P x)"
  by (metis filter_id_conv length_filter_less nat_less_le)

lemma unat_probe_step:
  fixes cur ts :: u32
  assumes "cur < ts"
  shows "unat ((cur + 1) mod ts) = (unat cur + 1) mod unat ts" and "(cur + 1) mod ts < ts"
proof -
  have lt: "unat cur < unat ts" using assms by (simp add: word_less_nat_alt)
  moreover have "unat ts < 2 ^ LENGTH(32)" by (rule unsigned_less)
  ultimately have "unat cur + unat (1 :: u32) < 2 ^ LENGTH(32)" by simp
  then have "unat (cur + 1) = unat cur + 1" by (simp add: unat_add_lem [THEN iffD1])
  then show "unat ((cur + 1) mod ts) = (unat cur + 1) mod unat ts" by (simp add: unat_mod)
  have "0 < ts" using lt by (simp add: word_less_nat_alt)
  then show "(cur + 1) mod ts < ts" by (rule word_mod_less_divisor)
qed

lemma probe_window_nth:
  "cur < ts \<Longrightarrow> j < n \<Longrightarrow> unat (probe_window ts cur n ! j) = (unat cur + j) mod unat ts"
proof (induction n arbitrary: cur j)
  case 0
  then show ?case by simp
next
  case (Suc n)
  show ?case
  proof (cases j)
    case 0
    then show ?thesis using Suc.prems by (simp add: word_less_nat_alt)
  next
    case (Suc j')
    then have "unat (probe_window ts cur (Suc n) ! j) = (unat ((cur + 1) mod ts) + j') mod unat ts"
      using Suc.IH [of "(cur + 1) mod ts" j'] Suc.prems unat_probe_step(2) [of cur ts] by simp
    also have "\<dots> = (unat cur + j) mod unat ts"
      using Suc unat_probe_step(1) [OF Suc.prems(1)] by (simp add: mod_add_left_eq)
    finally show ?thesis .
  qed
qed

lemma hasher_less: "tableSize h \<noteq> 0 \<Longrightarrow> hashmapStringHasher mem h k len < tableSize h"
  unfolding hashmapStringHasher_def Let_def
  by (rule word_mod_less_divisor) (simp add: word_neq_0_conv)

lemma key_window_nth:
  "tableSize h \<noteq> 0 \<Longrightarrow> j < HASHMAP_MAX_CHAIN_LENGTH \<Longrightarrow>
   unat (key_window mem h k len ! j) = (unat (hashmapStringHasher mem h k len) + j) mod unat (tableSize h)"
  unfolding key_window_def by (rule probe_window_nth [OF hasher_less])

lemma table9_reached:
  "put_all mem_ex (fst (snd (hashmapCreate 16 newHash_initial []))) []
     [(0, 2, 101), (2, 2, 102), (4, 1, 103), (5, 1, 104), (6, 1, 105), (7, 1, 106),
      (8, 2, 107), (10, 1, 108), (11, 2, 109)] = Some (0, table9, [])"
  by code_simp

lemma table8_reached: "hashmapRemove mem_ex table9 4 1 = (0, table8)"
  by code_simp

lemma hashmapGetBucket_eq:
  "hashmapGetBucket mem h k len = getBucket_contract mem h k len"
proof -
  let ?w = "key_window mem h k len"
  have "int (length (filter (\<lambda>c. used (slot h c)) ?w)) < int HASHMAP_MAX_CHAIN_LENGTH
          \<longleftrightarrow> (\<exists>c \<in> set ?w. \<not> used (slot h c))"
    using filter_all_length [of "\<lambda>c. used (slot h c)" ?w] by (simp add: key_window_def)
  then show ?thesis
    by (simp add: hashmapGetBucket_def getBucket_contract_def getBucket_match_find
        getBucket_free_find key_window_def [symmetric] Let_def split: option.splits)
       (simp add: key_window_def)
qed

text \<open>
  Claim C2. \<open>hashmapGetBucket\<close> follows the four-step contract: it is \<open>None\<close> (growth is
  needed) when \<open>size >= tableSize\<close>; otherwise it returns the first slot of the window of 8
  indices from the hash on that is occupied and holds the key; with no such slot, the first
  unoccupied slot of the window; and \<open>None\<close> when the window is fully occupied, whatever
  lies outside the window.
\<close>

theorem hashmapGetBucket_contract:
  "hashmapGetBucket mem h k len = getBucket_contract mem h k len \<and>
   length (key_window mem h k len) = HASHMAP_MAX_CHAIN_LENGTH"
  by (simp add: hashmapGetBucket_eq key_window_def)

theorem hashmapGetBucket_contract_witness:
  "hashmapGetBucket mem_ex table_full 4 1 = None \<and>
   hashmapGetBucket mem_ex table8 5 1 = Some 2 \<and>
   hashmapGetBucket mem_ex table8 4 1 = Some 1 \<and>
   hashmapGetBucket mem_ex table9 13 1 = None \<and>
   size_hm table9 < tableSize table9 \<and> \<not> used (slot table9 8)"
proof -
  have 1: "getBucket_contract mem_ex table_full 4 1 = None" by code_simp
  have 2: "getBucket_contract mem_ex table8 5 1 = Some 2" by code_simp
  have 3: "getBucket_contract mem_ex table8 4 1 = Some 1" by code_simp
  have 4: "getBucket_contract mem_ex table9 13 1 = None" by code_simp
  have 5: "size_hm table9 < tableSize table9 \<and> \<not> used (slot table9 8)" by code_simp
  show ?thesis
    using 1 2 3 4 5 hashmapGetBucket_contract [of mem_ex table_full 4 1]
      hashmapGetBucket_contract [of mem_ex table8 5 1]
      hashmapGetBucket_contract [of mem_ex table8 4 1]
      hashmapGetBucket_contract [of mem_ex table9 13 1]
    by simp
qed

text \<open>
  Claim C9. \<open>hashmapGet\<close> and \<open>hashmapRemove\<close> search the whole window of 8 slots for an
  occupied slot holding the key and do not stop at an unoccupied slot: a key stored \<open>j < 8\<close>
  steps from its hash index is found, whatever the earlier slots of the window are
  (unoccupied or holding other keys).
\<close>

theorem hashmapGet_Remove_whole_window:
  "hashmapGet mem h k len =
     (case find (matches mem h k len) (key_window mem h k len) of
        Some c \<Rightarrow> data (slot h c) | None \<Rightarrow> 0) \<and>
   hashmapRemove mem h k len =
     (case find (matches mem h k len) (key_window mem h k len) of
        Some c \<Rightarrow> (0, h\<lparr>data_hm := (data_hm h)[unat c := zero_element], size_hm := size_hm h - 1\<rparr>)
      | None \<Rightarrow> (1, h)) \<and>
   length (key_window mem h k len) = HASHMAP_MAX_CHAIN_LENGTH \<and>
   (tableSize h \<noteq> 0 \<and> j < HASHMAP_MAX_CHAIN_LENGTH \<and>
    i = (unat (hashmapStringHasher mem h k len) + j) mod unat (tableSize h) \<and>
    used (data_hm h ! i) \<and> hashmapCheckIfMatch mem (data_hm h ! i) k len \<and>
    (\<forall>j' \<in> {..<j}. \<not> (used (data_hm h ! ((unat (hashmapStringHasher mem h k len) + j') mod unat (tableSize h))) \<and>
        hashmapCheckIfMatch mem (data_hm h ! ((unat (hashmapStringHasher mem h k len) + j') mod unat (tableSize h))) k len))
    \<longrightarrow> hashmapGet mem h k len = data (data_hm h ! i) \<and>
        hashmapRemove mem h k len =
          (0, h\<lparr>data_hm := (data_hm h)[i := zero_element], size_hm := size_hm h - 1\<rparr>))"
proof -
  let ?w = "key_window mem h k len"
  let ?s = "hashmapStringHasher mem h k len"
  have g: "hashmapGet mem h k len =
     (case find (matches mem h k len) ?w of Some c \<Rightarrow> data (slot h c) | None \<Rightarrow> 0)"
    by (simp add: hashmapGet_def hashmapGet_probe_find key_window_def)
  have r: "hashmapRemove mem h k len =
     (case find (matches mem h k len) ?w of
        Some c \<Rightarrow> (0, h\<lparr>data_hm := (data_hm h)[unat c := zero_element], size_hm := size_hm h - 1\<rparr>)
      | None \<Rightarrow> (1, h))"
    by (simp add: hashmapRemove_def hashmapRemove_probe_find key_window_def)
  have l: "length ?w = HASHMAP_MAX_CHAIN_LENGTH" by (simp add: key_window_def)
  have c: "hashmapGet mem h k len = data (data_hm h ! i) \<and>
        hashmapRemove mem h k len =
          (0, h\<lparr>data_hm := (data_hm h)[i := zero_element], size_hm := size_hm h - 1\<rparr>)"
    if nz: "tableSize h \<noteq> 0" and j: "j < HASHMAP_MAX_CHAIN_LENGTH"
      and i: "i = (unat ?s + j) mod unat (tableSize h)"
      and u: "used (data_hm h ! i)" and m: "hashmapCheckIfMatch mem (data_hm h ! i) k len"
      and e: "\<forall>j' \<in> {..<j}. \<not> (used (data_hm h ! ((unat ?s + j') mod unat (tableSize h))) \<and>
        hashmapCheckIfMatch mem (data_hm h ! ((unat ?s + j') mod unat (tableSize h))) k len)"
  proof -
    have ij: "unat (?w ! j) = i" using key_window_nth [OF nz j] i by simp
    have "matches mem h k len (?w ! j)" using u m ij by (simp add: matches_def slot_def)
    moreover have "\<not> matches mem h k len (?w ! j')" if "j' < j" for j'
    proof -
      have "j' < HASHMAP_MAX_CHAIN_LENGTH" using that j by simp
      then show ?thesis using key_window_nth [OF nz, of j' mem k len] e that
        by (simp add: matches_def slot_def)
    qed
    ultimately have "find (matches mem h k len) ?w = Some (?w ! j)"
      using j l by (auto simp: find_Some_iff)
    then show ?thesis using g r ij by (simp add: slot_def)
  qed
  show ?thesis using g r l c by blast
qed

theorem hashmapGet_Remove_whole_window_witness:
  "tableSize table8 \<noteq> 0 \<and> (1 :: nat) < HASHMAP_MAX_CHAIN_LENGTH \<and>
   (2 :: nat) = (unat (hashmapStringHasher mem_ex table8 5 1) + 1) mod unat (tableSize table8) \<and>
   used (data_hm table8 ! 2) \<and> hashmapCheckIfMatch mem_ex (data_hm table8 ! 2) 5 1 \<and>
   \<not> used (data_hm table8 ! ((unat (hashmapStringHasher mem_ex table8 5 1) + 0) mod unat (tableSize table8))) \<and>
   hashmapGet mem_ex table8 5 1 = 104 \<and>
   hashmapRemove mem_ex table8 5 1 =
     (0, table8\<lparr>data_hm := (data_hm table8)[2 := zero_element], size_hm := size_hm table8 - 1\<rparr>)"
proof -
  have 1: "tableSize table8 \<noteq> 0" by code_simp
  have 2: "(1 :: nat) < HASHMAP_MAX_CHAIN_LENGTH" by code_simp
  have 3: "(2 :: nat) = (unat (hashmapStringHasher mem_ex table8 5 1) + 1) mod unat (tableSize table8)"
    by code_simp
  have 4: "used (data_hm table8 ! 2) \<and> hashmapCheckIfMatch mem_ex (data_hm table8 ! 2) 5 1"
    by code_simp
  have 5: "\<not> used (data_hm table8 ! ((unat (hashmapStringHasher mem_ex table8 5 1) + 0) mod unat (tableSize table8)))"
    by code_simp
  have 6: "data (data_hm table8 ! 2) = 104" by code_simp
  have e: "\<forall>j' \<in> {..<1::nat}.
      \<not> (used (data_hm table8 ! ((unat (hashmapStringHasher mem_ex table8 5 1) + j') mod unat (tableSize table8))) \<and>
         hashmapCheckIfMatch mem_ex (data_hm table8 ! ((unat (hashmapStringHasher mem_ex table8 5 1) + j') mod unat (tableSize table8))) 5 1)"
    using 5 by simp
  have 7: "hashmapGet mem_ex table8 5 1 = data (data_hm table8 ! 2) \<and>
     hashmapRemove mem_ex table8 5 1 =
       (0, table8\<lparr>data_hm := (data_hm table8)[2 := zero_element], size_hm := size_hm table8 - 1\<rparr>)"
    using hashmapGet_Remove_whole_window [of mem_ex table8 5 1 1 2] 1 2 3 4 e by blast
  show ?thesis
    using 1 2 3 4 5 6 7 by simp
qed

section \<open>Growth that fails half way\<close>

text \<open>
  Claim C1. The claim says that a failed growth leaves the old table as it was. The source
  does not: in \<open>table9\<close> the ninth entry visited finds its window of the new table full, the
  nested growth cannot allocate, and \<open>hashmapExpand\<close> returns 1 after
  \<open>hashmapApplyIterator\<close> has zeroed the eight slots visited before. The count of the old
  table drops from 9 to 1 and the key \<open>t\<close> is no longer found. The same happens through
  \<open>hashmapPut\<close> of a tenth key.
\<close>

theorem hashmapExpand_failure_empties_old_table:
  "hashmapExpand 32 mem_ex table9 [True, False] = Some (1, table1, []) \<and>
   hashmapPut 32 mem_ex table9 13 1 110 [True, False] = Some (1, table1, []) \<and>
   size_hm table9 = 9 \<and> size_hm table1 = 1 \<and>
   hashmapGet mem_ex table9 4 1 = 103 \<and> hashmapGet mem_ex table1 4 1 = 0"
  by code_simp

section \<open>Iteration\<close>

lemma applyIterator_loop_visit:
  "distinct is \<Longrightarrow> \<forall>i \<in> set is. data_hm h ! i = data_hm h0 ! i \<Longrightarrow>
   applyIterator_loop f is h ctx =
     visit_slots f h0 (filter (\<lambda>i. used (data_hm h0 ! i)) is) h ctx"
proof (induction "is" arbitrary: h ctx)
  case Nil
  then show ?case by simp
next
  case (Cons i "is")
  have d: "distinct is" and r: "\<forall>j \<in> set is. data_hm h ! j = data_hm h0 ! j"
    and hd: "data_hm h ! i = data_hm h0 ! i"
    using Cons.prems by auto
  have other: "(data_hm h)[i := e] ! j = data_hm h0 ! j" if "j \<in> set is" for j e
  proof -
    have "i \<noteq> j" using that Cons.prems(1) by auto
    then show ?thesis using r that by simp
  qed
  have keep_clear: "\<forall>j \<in> set is. data_hm (clear_slot h i) ! j = data_hm h0 ! j"
    using other by (simp add: clear_slot_def)
  have keep_write: "\<forall>j \<in> set is. data_hm (write_slot h i e) ! j = data_hm h0 ! j" for e
    using other by (simp add: write_slot_def)
  have c: "applyIterator_loop f is (clear_slot h i) c' =
      visit_slots f h0 (filter (\<lambda>i. used (data_hm h0 ! i)) is) (clear_slot h i) c'" for c'
    by (rule Cons.IH [OF d keep_clear])
  have w: "applyIterator_loop f is (write_slot h i e) c' =
      visit_slots f h0 (filter (\<lambda>i. used (data_hm h0 ! i)) is) (write_slot h i e) c'" for e c'
    by (rule Cons.IH [OF d keep_write])
  have cl: "h\<lparr>data_hm := (data_hm h)[i := zero_element], size_hm := size_hm h - 1\<rparr> = clear_slot h i"
    by (simp add: clear_slot_def)
  have wr: "h\<lparr>data_hm := (data_hm h)[i := e]\<rparr> = write_slot h i e" for e
    by (simp add: write_slot_def)
  have cl2: "(write_slot h i e)\<lparr>data_hm := (data_hm (write_slot h i e))[i := zero_element],
      size_hm := size_hm (write_slot h i e) - 1\<rparr> = clear_slot h i" for e
    by (simp add: clear_slot_def write_slot_def)
  show ?case
  proof (cases "used (data_hm h0 ! i)")
    case False
    then show ?thesis using hd Cons.IH [OF d r] by simp
  next
    case True
    then show ?thesis using hd
      by (simp add: Let_def cl wr cl2 c w split: option.splits)
  qed
qed

lemma hashmapApplyIterator_visit:
  "hashmapApplyIterator f h ctx = visit_slots f h (occupied h) h ctx"
  unfolding hashmapApplyIterator_def occupied_def
  by (rule applyIterator_loop_visit) auto

lemma visit_slots_logging:
  "never_stops f \<Longrightarrow>
   \<exists>h' ctx'. visit_slots (logging f) h0 is h (ctx, calls) =
      Some (0, h', (ctx', calls @ map (\<lambda>i. data_hm h0 ! i) is))"
proof (induction "is" arbitrary: h ctx calls)
  case Nil
  then show ?case by simp
next
  case (Cons i "is")
  from Cons.prems obtain r c' e' where f: "f ctx (data_hm h0 ! i) = Some (r, c', e')"
    and r: "r = 0 \<or> r = - 1"
    unfolding never_stops_def by blast
  show ?case
  proof (cases "r = - 1")
    case True
    with f Cons.IH [OF Cons.prems, of "clear_slot h i" c' "calls @ [data_hm h0 ! i]"]
    show ?thesis by (auto simp: logging_def)
  next
    case False
    with r f Cons.IH [OF Cons.prems, of "write_slot h i e'" c' "calls @ [data_hm h0 ! i]"]
    show ?thesis by (auto simp: logging_def)
  qed
qed

lemma occupied_props:
  "sorted (occupied h) \<and> distinct (occupied h) \<and>
   set (occupied h) = {i. i < unat (tableSize h) \<and> used (data_hm h ! i)}"
  by (auto simp: occupied_def sorted_wrt_filter)

text \<open>
  Claim C5. \<open>hashmapApplyIterator\<close> calls the visitor for the occupied slots of the table, in
  ascending index order and once per slot: a result \<open>-1\<close> zeroes the slot and decrements the
  count before the traversal goes on, a result \<open>0\<close> goes on with the slot as the visitor left
  it, a result other than \<open>-1\<close> and \<open>0\<close> ends it at once with the return value 1. With a visitor that never stops, \<open>hashmapDestroyWithOwnership\<close> calls
  the visitor exactly once for each occupied slot (the recorded calls are the elements of the
  occupied slots in ascending order), prints no failure and destroys the table.
\<close>

theorem hashmapApplyIterator_visits_occupied:
  "hashmapApplyIterator f h ctx = visit_slots f h (occupied h) h ctx \<and>
   sorted (occupied h) \<and> distinct (occupied h) \<and>
   set (occupied h) = {i. i < unat (tableSize h) \<and> used (data_hm h ! i)} \<and>
   (never_stops f \<longrightarrow>
      (\<exists>ctx'. hashmapDestroyWithOwnership (logging f) h (ctx, []) =
         Some (False, \<lparr>tableSize = 0, size_hm = 0, data_hm = []\<rparr>,
               (ctx', map (\<lambda>i. data_hm h ! i) (occupied h)))))"
proof -
  have "\<exists>ctx'. hashmapDestroyWithOwnership (logging f) h (ctx, []) =
         Some (False, \<lparr>tableSize = 0, size_hm = 0, data_hm = []\<rparr>,
               (ctx', map (\<lambda>i. data_hm h ! i) (occupied h)))" if "never_stops f"
    using visit_slots_logging [OF that, of h "occupied h" h ctx "[]"]
    by (auto simp: hashmapDestroyWithOwnership_def hashmapApplyIterator_visit hashmapDestroy_def)
  then show ?thesis
    using hashmapApplyIterator_visit [of f h ctx] occupied_props [of h] by blast
qed

theorem hashmapApplyIterator_visits_occupied_witness:
  "never_stops counting_visitor \<and>
   occupied table9 = [0, 1, 2, 3, 4, 5, 6, 7, 15] \<and>
   hashmapApplyIterator counting_visitor table9 0 =
     Some (0, \<lparr>tableSize = 16, size_hm = 0, data_hm = replicate 16 zero_element\<rparr>, 9) \<and>
   hashmapDestroyWithOwnership (logging counting_visitor) table9 (0, []) =
     Some (False, \<lparr>tableSize = 0, size_hm = 0, data_hm = []\<rparr>,
        (9, [entry 2 2 102, entry 4 1 103, entry 5 1 104, entry 6 1 105, entry 7 1 106,
         entry 8 2 107, entry 10 1 108, entry 11 2 109, entry 0 2 101]))"
proof -
  have n: "never_stops counting_visitor"
    by (simp add: never_stops_def counting_visitor_def)
  have o: "occupied table9 = [0, 1, 2, 3, 4, 5, 6, 7, 15]"
    by code_simp
  have v: "visit_slots counting_visitor table9 (occupied table9) table9 0 =
     Some (0, \<lparr>tableSize = 16, size_hm = 0, data_hm = replicate 16 zero_element\<rparr>, 9)"
    by code_simp
  have d: "hashmapDestroyWithOwnership (logging counting_visitor) table9 (0, []) =
     Some (False, \<lparr>tableSize = 0, size_hm = 0, data_hm = []\<rparr>,
        (9, [entry 2 2 102, entry 4 1 103, entry 5 1 104, entry 6 1 105, entry 7 1 106,
         entry 8 2 107, entry 10 1 108, entry 11 2 109, entry 0 2 101]))"
    by code_simp
  show ?thesis
    using n o v d hashmapApplyIterator_visits_occupied [of counting_visitor table9 0]
    by simp
qed

section \<open>Valid tables: keys, windows and the operations on a slot\<close>

subsection \<open>Keys\<close>

lemma memcmp_zero_iff:
  "memcmp mem p q n = 0 \<longleftrightarrow> map (\<lambda>i. mem (p + i)) [0..<n] = map (\<lambda>i. mem (q + i)) [0..<n]"
proof (induction n arbitrary: p q)
  case 0
  then show ?case by simp
next
  case (Suc n)
  have u: "[0..<Suc n] = 0 # map Suc [0..<n]"
    by (metis map_Suc_upt upt_conv_Cons zero_less_Suc)
  show ?case
    unfolding u using Suc.IH [of "Suc p" "Suc q"] by (simp add: comp_def)
qed

lemma length_key_bytes [simp]: "length (key_bytes mem p len) = unat len"
  by (simp add: key_bytes_def)

lemma key_bytes_eq_len: "key_bytes mem p len = key_bytes mem q len' \<Longrightarrow> len = len'"
  by (metis length_key_bytes word_unat_eq_iff)

lemma hashmapCheckIfMatch_iff:
  "hashmapCheckIfMatch mem e k len \<longleftrightarrow> slot_key mem e = key_bytes mem k len"
proof
  assume "hashmapCheckIfMatch mem e k len"
  then show "slot_key mem e = key_bytes mem k len"
    by (simp add: hashmapCheckIfMatch_def memcmp_zero_iff slot_key_def key_bytes_def)
next
  assume a: "slot_key mem e = key_bytes mem k len"
  then have "keyLen e = len" unfolding slot_key_def by (rule key_bytes_eq_len)
  with a show "hashmapCheckIfMatch mem e k len"
    by (simp add: hashmapCheckIfMatch_def memcmp_zero_iff slot_key_def key_bytes_def)
qed

lemma hasher_cong:
  "key_bytes mem k len = key_bytes mem k' len' \<Longrightarrow> tableSize h = tableSize h' \<Longrightarrow>
   hashmapStringHasher mem h k len = hashmapStringHasher mem h' k' len'"
  by (simp add: hashmapStringHasher_def hashmapCRC32_def)

lemma key_window_cong:
  "key_bytes mem k len = key_bytes mem k' len' \<Longrightarrow> tableSize h = tableSize h' \<Longrightarrow>
   key_window mem h k len = key_window mem h' k' len'"
  by (simp add: key_window_def hasher_cong [of mem k len k' len' h h'])

lemma probe_window_less:
  "cur < ts \<Longrightarrow> c \<in> set (probe_window ts cur n) \<Longrightarrow> c < ts"
proof (induction n arbitrary: cur)
  case 0
  then show ?case by simp
next
  case (Suc n)
  then show ?case using unat_probe_step(2) [of cur ts] by auto
qed

lemma key_window_less:
  "tableSize h \<noteq> 0 \<Longrightarrow> c \<in> set (key_window mem h k len) \<Longrightarrow> c < tableSize h"
  unfolding key_window_def by (rule probe_window_less [OF hasher_less])

lemma power_of_two_nonzero: "power_of_two x \<Longrightarrow> x \<noteq> 0"
  using capacity_check_iff [of x] by blast

subsection \<open>The invariant, by indices\<close>

lemma hashmap_invD:
  assumes "hashmap_inv mem h"
  shows "power_of_two (tableSize h)" and "tableSize h \<noteq> 0"
    and "length (data_hm h) = unat (tableSize h)"
    and "unat (size_hm h) = length (filter used (data_hm h))"
    and "\<And>i. i < length (data_hm h) \<Longrightarrow> used (data_hm h ! i) \<Longrightarrow> in_window mem h i"
    and "\<And>i j. i < length (data_hm h) \<Longrightarrow> j < length (data_hm h) \<Longrightarrow>
          used (data_hm h ! i) \<Longrightarrow> used (data_hm h ! j) \<Longrightarrow>
          slot_key mem (data_hm h ! i) = slot_key mem (data_hm h ! j) \<Longrightarrow> i = j"
  using assms power_of_two_nonzero [of "tableSize h"] unfolding hashmap_inv_def by auto

lemma hashmap_invI:
  assumes "power_of_two (tableSize h)"
    and "length (data_hm h) = unat (tableSize h)"
    and "unat (size_hm h) = length (filter used (data_hm h))"
    and "\<And>i. i < length (data_hm h) \<Longrightarrow> used (data_hm h ! i) \<Longrightarrow> in_window mem h i"
    and "\<And>i j. i < length (data_hm h) \<Longrightarrow> j < length (data_hm h) \<Longrightarrow>
          used (data_hm h ! i) \<Longrightarrow> used (data_hm h ! j) \<Longrightarrow>
          slot_key mem (data_hm h ! i) = slot_key mem (data_hm h ! j) \<Longrightarrow> i = j"
  shows "hashmap_inv mem h"
  using assms unfolding hashmap_inv_def by auto

lemma entries_iff:
  "(b, v) \<in> entries mem h \<longleftrightarrow>
     (\<exists>i < length (data_hm h). used (data_hm h ! i) \<and> slot_key mem (data_hm h ! i) = b \<and> data (data_hm h ! i) = v)"
  by (auto simp: entries_def in_set_conv_nth) 

lemma present_iff:
  "present mem h k len \<longleftrightarrow>
     (\<exists>i < length (data_hm h). used (data_hm h ! i) \<and> slot_key mem (data_hm h ! i) = key_bytes mem k len)"
proof -
  have "key_bytes mem k len \<in> fst ` entries mem h \<longleftrightarrow> (\<exists>v. (key_bytes mem k len, v) \<in> entries mem h)"
    by force
  then show ?thesis unfolding present_def entries_iff by blast
qed

lemma length_filter_update:
  "i < length xs \<Longrightarrow>
   length (filter P (xs[i := x])) + (if P (xs ! i) then 1 else 0) =
   length (filter P xs) + (if P x then 1 else 0)"
proof (induction xs arbitrary: i)
  case Nil
  then show ?case by simp
next
  case (Cons a xs)
  show ?case
  proof (cases i)
    case 0
    then show ?thesis by simp
  next
    case (Suc j)
    then show ?thesis using Cons.IH [of j] Cons.prems by simp
  qed
qed

lemma window_index:
  "hashmap_inv mem h \<Longrightarrow> c \<in> set (key_window mem h k len) \<Longrightarrow> unat c < length (data_hm h)"
  using key_window_less [of h c mem k len] hashmap_invD(2,3) [of mem h]
  by (simp add: word_less_nat_alt)

lemma find_matches_SomeD:
  assumes "find (matches mem h k len) (key_window mem h k len) = Some c"
  shows "c \<in> set (key_window mem h k len)" and "used (data_hm h ! unat c)"
    and "slot_key mem (data_hm h ! unat c) = key_bytes mem k len"
  using assms
  by (auto simp: find_Some_iff matches_def slot_def hashmapCheckIfMatch_iff)

lemma find_matches_present:
  assumes inv: "hashmap_inv mem h" and i: "i < length (data_hm h)" and u: "used (data_hm h ! i)"
    and k: "slot_key mem (data_hm h ! i) = key_bytes mem k len"
  shows "\<exists>c. find (matches mem h k len) (key_window mem h k len) = Some c \<and> unat c = i"
proof -
  let ?w = "key_window mem h k len"
  have "in_window mem h i" using hashmap_invD(5) [OF inv i u] .
  moreover have "key_window mem h (key (data_hm h ! i)) (keyLen (data_hm h ! i)) = ?w"
    using k by (intro key_window_cong) (simp_all add: slot_key_def)
  ultimately obtain c where c: "c \<in> set ?w" "unat c = i"
    unfolding in_window_def by auto
  then have "matches mem h k len c"
    using u k by (simp add: matches_def slot_def hashmapCheckIfMatch_iff)
  with c(1) have "find (matches mem h k len) ?w \<noteq> None"
    by (auto simp: find_None_iff)
  then obtain c' where f: "find (matches mem h k len) ?w = Some c'" by blast
  note d = find_matches_SomeD [OF f]
  have "unat c' < length (data_hm h)" using window_index [OF inv d(1)] .
  then have "unat c' = i"
    using hashmap_invD(6) [OF inv _ i d(2) u] d(3) k by simp
  with f show ?thesis by blast
qed

lemma find_matches_absent:
  assumes inv: "hashmap_inv mem h" and a: "\<not> present mem h k len"
  shows "find (matches mem h k len) (key_window mem h k len) = None"
proof (rule ccontr)
  assume "find (matches mem h k len) (key_window mem h k len) \<noteq> None"
  then obtain c where f: "find (matches mem h k len) (key_window mem h k len) = Some c" by blast
  note d = find_matches_SomeD [OF f]
  have "unat c < length (data_hm h)" using window_index [OF inv d(1)] .
  with d(2,3) have "present mem h k len" unfolding present_iff by blast
  with a show False by contradiction
qed

subsection \<open>Removing a slot\<close>

lemma in_window_cong:
  "tableSize h' = tableSize h \<Longrightarrow> data_hm h' ! i = data_hm h ! i \<Longrightarrow>
   in_window mem h' i = in_window mem h i"
  unfolding in_window_def
  using key_window_cong [of mem "key (data_hm h ! i)" "keyLen (data_hm h ! i)" _ _ h' h, OF refl]
  by simp

lemma hashmap_inv_clear_slot:
  assumes inv: "hashmap_inv mem h" and i: "i < length (data_hm h)" and u: "used (data_hm h ! i)"
  shows "hashmap_inv mem (clear_slot h i)"
proof (rule hashmap_invI)
  let ?h' = "clear_slot h i"
  have d: "data_hm ?h' = (data_hm h)[i := zero_element]" and t: "tableSize ?h' = tableSize h"
    and s: "size_hm ?h' = size_hm h - 1"
    by (simp_all add: clear_slot_def)
  show "power_of_two (tableSize ?h')" using hashmap_invD(1) [OF inv] t by simp
  show "length (data_hm ?h') = unat (tableSize ?h')" using hashmap_invD(3) [OF inv] d t by simp
  have c: "length (filter used (data_hm ?h')) + 1 = length (filter used (data_hm h))"
    using length_filter_update [OF i, of used zero_element] u d by (simp add: zero_element_def)
  then have "0 < length (filter used (data_hm h))" by arith
  then have "0 < unat (size_hm h)" by (simp only: hashmap_invD(4) [OF inv])
  then have "size_hm h \<noteq> 0" by (simp add: unat_gt_0)
  then have "unat (size_hm h - 1) = unat (size_hm h) - 1" by (rule unat_minus_one)
  then show "unat (size_hm ?h') = length (filter used (data_hm ?h'))"
    using c hashmap_invD(4) [OF inv] s by simp
  show "in_window mem ?h' j" if j: "j < length (data_hm ?h')" and uj: "used (data_hm ?h' ! j)" for j
  proof -
    have ne: "j \<noteq> i" using uj i d by (auto simp: zero_element_def)
    then have e: "data_hm ?h' ! j = data_hm h ! j" using d by simp
    then have "in_window mem h j" using hashmap_invD(5) [OF inv, of j] j uj d by simp
    then show ?thesis using in_window_cong [OF t e] by simp
  qed
  show "j = l" if "j < length (data_hm ?h')" "l < length (data_hm ?h')"
    "used (data_hm ?h' ! j)" "used (data_hm ?h' ! l)"
    "slot_key mem (data_hm ?h' ! j) = slot_key mem (data_hm ?h' ! l)" for j l
  proof -
    have "j \<noteq> i" "l \<noteq> i" using that i d by (auto simp: zero_element_def)
    then have "data_hm ?h' ! j = data_hm h ! j" "data_hm ?h' ! l = data_hm h ! l" using d by simp_all
    then show ?thesis using hashmap_invD(6) [OF inv, of j l] that d by simp
  qed
qed

lemma entries_clear_slot:
  assumes inv: "hashmap_inv mem h" and i: "i < length (data_hm h)" and u: "used (data_hm h ! i)"
  shows "entries mem (clear_slot h i) = {(b, v) \<in> entries mem h. b \<noteq> slot_key mem (data_hm h ! i)}"
proof -
  let ?h' = "clear_slot h i"
  have d: "data_hm ?h' = (data_hm h)[i := zero_element]" by (simp add: clear_slot_def)
  have "(b, v) \<in> entries mem ?h' \<longleftrightarrow> (b, v) \<in> entries mem h \<and> b \<noteq> slot_key mem (data_hm h ! i)" for b v
  proof
    assume "(b, v) \<in> entries mem ?h'"
    then obtain j where j: "j < length (data_hm h)" "used (data_hm ?h' ! j)"
      "slot_key mem (data_hm ?h' ! j) = b" "data (data_hm ?h' ! j) = v"
      unfolding entries_iff d by auto
    have ne: "j \<noteq> i" using j(2) i d by (auto simp: zero_element_def)
    then have e: "data_hm ?h' ! j = data_hm h ! j" using d by simp
    have "b \<noteq> slot_key mem (data_hm h ! i)"
      using hashmap_invD(6) [OF inv j(1) i] j(2,3) e u ne by auto
    moreover have "(b, v) \<in> entries mem h" unfolding entries_iff using j e by auto
    ultimately show "(b, v) \<in> entries mem h \<and> b \<noteq> slot_key mem (data_hm h ! i)" by simp
  next
    assume a: "(b, v) \<in> entries mem h \<and> b \<noteq> slot_key mem (data_hm h ! i)"
    then obtain j where j: "j < length (data_hm h)" "used (data_hm h ! j)"
      "slot_key mem (data_hm h ! j) = b" "data (data_hm h ! j) = v"
      unfolding entries_iff by auto
    with a have "j \<noteq> i" by auto
    then have "data_hm ?h' ! j = data_hm h ! j" using d by simp
    then show "(b, v) \<in> entries mem ?h'" unfolding entries_iff d using j by auto
  qed
  then show ?thesis by auto
qed

subsection \<open>hashmapGet and hashmapRemove on a valid table\<close>

lemma hashmapGet_eq:
  "hashmapGet mem h k len =
     (case find (matches mem h k len) (key_window mem h k len) of
        Some c \<Rightarrow> data (slot h c) | None \<Rightarrow> 0)"
  by (simp add: hashmapGet_def hashmapGet_probe_find key_window_def)

lemma hashmapRemove_eq:
  "hashmapRemove mem h k len =
     (case find (matches mem h k len) (key_window mem h k len) of
        Some c \<Rightarrow> (0, clear_slot h (unat c)) | None \<Rightarrow> (1, h))"
  by (simp add: hashmapRemove_def hashmapRemove_probe_find key_window_def clear_slot_def
      split: option.splits)

lemma hashmapGet_present:
  assumes "hashmap_inv mem h" "i < length (data_hm h)" "used (data_hm h ! i)"
    "slot_key mem (data_hm h ! i) = key_bytes mem k len"
  shows "hashmapGet mem h k len = data (data_hm h ! i)"
  using find_matches_present [OF assms] by (auto simp: hashmapGet_eq slot_def)


lemma hashmapGet_entries:
  "hashmap_inv mem h \<Longrightarrow> (key_bytes mem k len, v) \<in> entries mem h \<Longrightarrow> hashmapGet mem h k len = v"
  unfolding entries_iff using hashmapGet_present [of mem h _ k len] by auto

lemma hashmapRemove_present:
  assumes "hashmap_inv mem h" "i < length (data_hm h)" "used (data_hm h ! i)"
    "slot_key mem (data_hm h ! i) = key_bytes mem k len"
  shows "hashmapRemove mem h k len = (0, clear_slot h i)"
  using find_matches_present [OF assms] by (auto simp: hashmapRemove_eq)

lemma hashmapRemove_absent:
  "hashmap_inv mem h \<Longrightarrow> \<not> present mem h k len \<Longrightarrow> hashmapRemove mem h k len = (1, h)"
  using find_matches_absent [of mem h k len] by (simp add: hashmapRemove_eq)

lemma hashmapGetBucket_SomeD:
  assumes inv: "hashmap_inv mem h" and g: "hashmapGetBucket mem h k len = Some c"
  shows "c \<in> set (key_window mem h k len)" and "size_hm h < tableSize h"
    and "used (slot h c) \<longrightarrow> slot_key mem (slot h c) = key_bytes mem k len"
    and "used (slot h c) \<longleftrightarrow> present mem h k len"
proof -
  let ?w = "key_window mem h k len"
  from g show s: "size_hm h < tableSize h"
    by (auto simp: hashmapGetBucket_eq getBucket_contract_def split: if_splits)
  show "c \<in> set ?w" and "used (slot h c) \<longrightarrow> slot_key mem (slot h c) = key_bytes mem k len"
    and "used (slot h c) \<longleftrightarrow> present mem h k len"
  proof (atomize (full), cases "find (matches mem h k len) ?w")
    case None
    with g s have f: "find (\<lambda>c. \<not> used (slot h c)) ?w = Some c"
      by (auto simp: hashmapGetBucket_eq getBucket_contract_def split: if_splits)
    then have c: "c \<in> set ?w" "\<not> used (slot h c)" by (auto simp: find_Some_iff)
    have "\<not> present mem h k len"
    proof
      assume "present mem h k len"
      then obtain i where "i < length (data_hm h)" "used (data_hm h ! i)"
        "slot_key mem (data_hm h ! i) = key_bytes mem k len"
        unfolding present_iff by blast
      from find_matches_present [OF inv this] None show False by simp
    qed
    with c show "c \<in> set ?w \<and> (used (slot h c) \<longrightarrow> slot_key mem (slot h c) = key_bytes mem k len) \<and>
      (used (slot h c) \<longleftrightarrow> present mem h k len)" by simp
  next
    case (Some c')
    with g s have "c' = c"
      by (auto simp: hashmapGetBucket_eq getBucket_contract_def split: if_splits)
    with Some have f: "find (matches mem h k len) ?w = Some c" by simp
    note d = find_matches_SomeD [OF f]
    have "unat c < length (data_hm h)" using window_index [OF inv d(1)] .
    with d(2,3) have "present mem h k len" unfolding present_iff by blast
    with d show "c \<in> set ?w \<and> (used (slot h c) \<longrightarrow> slot_key mem (slot h c) = key_bytes mem k len) \<and>
      (used (slot h c) \<longleftrightarrow> present mem h k len)" by (simp add: slot_def)
  qed
qed

lemma put_element_eq:
  "put_element h c k len v =
     h\<lparr>data_hm := (data_hm h)[unat c := entry k len v],
       size_hm := (if used (slot h c) then size_hm h else size_hm h + 1)\<rparr>"
  by (cases "data_hm h ! unat c") (simp add: put_element_def Let_def entry_def slot_def)

lemma entry_sel [simp]:
  "key (entry k len v) = k" "keyLen (entry k len v) = len" "used (entry k len v)"
  "data (entry k len v) = v"
  by (simp_all add: entry_def)

lemma slot_key_entry [simp]: "slot_key mem (entry k len v) = key_bytes mem k len"
  by (simp add: slot_key_def)

lemma put_element_props:
  assumes inv: "hashmap_inv mem h" and w: "c \<in> set (key_window mem h k len)"
    and s: "size_hm h < tableSize h"
    and m: "used (slot h c) \<longrightarrow> slot_key mem (slot h c) = key_bytes mem k len"
    and p: "used (slot h c) \<longleftrightarrow> present mem h k len"
  shows "hashmap_inv mem (put_element h c k len v)"
    and "entries mem (put_element h c k len v) =
           {(b, x) \<in> entries mem h. b \<noteq> key_bytes mem k len} \<union> {(key_bytes mem k len, v)}"
    and "unat (size_hm (put_element h c k len v)) =
           unat (size_hm h) + (if present mem h k len then 0 else 1)"
    and "tableSize (put_element h c k len v) = tableSize h"
    and "unat c < length (data_hm (put_element h c k len v))"
    and "data_hm (put_element h c k len v) ! unat c = entry k len v"
proof -
  let ?h' = "put_element h c k len v"
  let ?i = "unat c"
  let ?kb = "key_bytes mem k len"
  have i: "?i < length (data_hm h)" using window_index [OF inv w] .
  have d: "data_hm ?h' = (data_hm h)[?i := entry k len v]" and t: "tableSize ?h' = tableSize h"
    and sz: "size_hm ?h' = (if used (slot h c) then size_hm h else size_hm h + 1)"
    by (simp_all add: put_element_eq)
  show "tableSize ?h' = tableSize h" by (rule t)
  show i': "?i < length (data_hm ?h')" using i d by simp
  show at: "data_hm ?h' ! ?i = entry k len v" using i d by simp
  have other: "slot_key mem (data_hm h ! j) \<noteq> ?kb"
    if "j < length (data_hm h)" "used (data_hm h ! j)" "j \<noteq> ?i" for j
  proof (cases "used (slot h c)")
    case True
    then show ?thesis
      using hashmap_invD(6) [OF inv that(1) i that(2)] m that(3) by (auto simp: slot_def)
  next
    case False
    then have "\<not> present mem h k len" using p by simp
    then show ?thesis using that(1,2) unfolding present_iff by blast
  qed
  have cnt: "length (filter used (data_hm ?h')) =
      length (filter used (data_hm h)) + (if used (slot h c) then 0 else 1)"
    using length_filter_update [OF i, of used "entry k len v"] d
    by (simp add: slot_def split: if_splits)
  have "unat (size_hm h) < unat (tableSize h)" using s by (simp add: word_less_nat_alt)
  moreover have "unat (tableSize h) < 2 ^ LENGTH(32)" by (rule unsigned_less)
  ultimately have "unat (size_hm h) + unat (1 :: u32) < 2 ^ LENGTH(32)" by simp
  then have plus: "unat (size_hm h + 1) = unat (size_hm h) + 1"
    by (simp add: unat_add_lem [THEN iffD1])
  show size: "unat (size_hm ?h') = unat (size_hm h) + (if present mem h k len then 0 else 1)"
    using sz plus p by simp
  show "hashmap_inv mem ?h'"
  proof (rule hashmap_invI)
    show "power_of_two (tableSize ?h')" using hashmap_invD(1) [OF inv] t by simp
    show "length (data_hm ?h') = unat (tableSize ?h')" using hashmap_invD(3) [OF inv] d t by simp
    show "unat (size_hm ?h') = length (filter used (data_hm ?h'))"
      using size cnt p hashmap_invD(4) [OF inv] by simp
    show "in_window mem ?h' j" if j: "j < length (data_hm ?h')" and uj: "used (data_hm ?h' ! j)" for j
    proof (cases "j = ?i")
      case True
      have "key_window mem ?h' k len = key_window mem h k len"
        by (rule key_window_cong [OF refl t])
      then show ?thesis using True at w unfolding in_window_def by simp
    next
      case False
      then have e: "data_hm ?h' ! j = data_hm h ! j" using d by simp
      then have "in_window mem h j" using hashmap_invD(5) [OF inv, of j] j uj d by simp
      then show ?thesis using in_window_cong [OF t e] by simp
    qed
    show "j = l" if jl: "j < length (data_hm ?h')" "l < length (data_hm ?h')"
      "used (data_hm ?h' ! j)" "used (data_hm ?h' ! l)"
      "slot_key mem (data_hm ?h' ! j) = slot_key mem (data_hm ?h' ! l)" for j l
    proof (cases "j = ?i"; cases "l = ?i")
      assume "j = ?i" "l = ?i"
      then show ?thesis by simp
    next
      assume a: "j = ?i" "l \<noteq> ?i"
      then have "data_hm ?h' ! l = data_hm h ! l" using d by simp
      then show ?thesis using other [of l] jl a at d by simp
    next
      assume a: "j \<noteq> ?i" "l = ?i"
      then have "data_hm ?h' ! j = data_hm h ! j" using d by simp
      then show ?thesis using other [of j] jl a at d by simp
    next
      assume a: "j \<noteq> ?i" "l \<noteq> ?i"
      then have "data_hm ?h' ! j = data_hm h ! j" "data_hm ?h' ! l = data_hm h ! l" using d by simp_all
      then show ?thesis using hashmap_invD(6) [OF inv, of j l] jl d by simp
    qed
  qed
  show "entries mem ?h' = {(b, x) \<in> entries mem h. b \<noteq> ?kb} \<union> {(?kb, v)}"
  proof -
    have "(b, x) \<in> entries mem ?h' \<longleftrightarrow> ((b, x) \<in> entries mem h \<and> b \<noteq> ?kb) \<or> (b = ?kb \<and> x = v)" for b x
    proof
      assume "(b, x) \<in> entries mem ?h'"
      then obtain j where j: "j < length (data_hm h)" "used (data_hm ?h' ! j)"
        "slot_key mem (data_hm ?h' ! j) = b" "data (data_hm ?h' ! j) = x"
        unfolding entries_iff d by auto
      show "((b, x) \<in> entries mem h \<and> b \<noteq> ?kb) \<or> (b = ?kb \<and> x = v)"
      proof (cases "j = ?i")
        case True
        then show ?thesis using j at by auto
      next
        case False
        then have e: "data_hm ?h' ! j = data_hm h ! j" using d by simp
        then have "b \<noteq> ?kb" using other [of j] j False by simp
        moreover have "(b, x) \<in> entries mem h" unfolding entries_iff using j e by auto
        ultimately show ?thesis by simp
      qed
    next
      assume a: "((b, x) \<in> entries mem h \<and> b \<noteq> ?kb) \<or> (b = ?kb \<and> x = v)"
      then show "(b, x) \<in> entries mem ?h'"
      proof
        assume b: "(b, x) \<in> entries mem h \<and> b \<noteq> ?kb"
        then obtain j where j: "j < length (data_hm h)" "used (data_hm h ! j)"
          "slot_key mem (data_hm h ! j) = b" "data (data_hm h ! j) = x"
          unfolding entries_iff by auto
        have "j \<noteq> ?i"
        proof
          assume "j = ?i"
          then have "used (slot h c)" using j(2) by (simp add: slot_def)
          then show False using m j(3) b \<open>j = ?i\<close> by (simp add: slot_def)
        qed
        then have "data_hm ?h' ! j = data_hm h ! j" using d by simp
        then show ?thesis unfolding entries_iff d using j by auto
      next
        assume "b = ?kb \<and> x = v"
        then show ?thesis unfolding entries_iff using i' at by (auto intro!: exI [of _ ?i])
      qed
    qed
    then show ?thesis by auto
  qed
qed

subsection \<open>Writing a slot with the same key\<close>

lemma hashmap_inv_write_slot:
  assumes inv: "hashmap_inv mem h" and i: "i < length (data_hm h)" and u: "used (data_hm h ! i)"
    and u': "used e" and k: "slot_key mem e = slot_key mem (data_hm h ! i)"
  shows "hashmap_inv mem (write_slot h i e)"
proof (rule hashmap_invI)
  let ?h' = "write_slot h i e"
  have d: "data_hm ?h' = (data_hm h)[i := e]" and t: "tableSize ?h' = tableSize h"
    and s: "size_hm ?h' = size_hm h"
    by (simp_all add: write_slot_def)
  have at: "data_hm ?h' ! i = e" using i d by simp
  show "power_of_two (tableSize ?h')" using hashmap_invD(1) [OF inv] t by simp
  show "length (data_hm ?h') = unat (tableSize ?h')" using hashmap_invD(3) [OF inv] d t by simp
  have "length (filter used (data_hm ?h')) = length (filter used (data_hm h))"
    using length_filter_update [OF i, of used e] u u' d by simp
  then show "unat (size_hm ?h') = length (filter used (data_hm ?h'))"
    using hashmap_invD(4) [OF inv] s by simp
  show "in_window mem ?h' j" if j: "j < length (data_hm ?h')" and uj: "used (data_hm ?h' ! j)" for j
  proof (cases "j = i")
    case True
    have "key_window mem ?h' (key e) (keyLen e) =
        key_window mem h (key (data_hm h ! i)) (keyLen (data_hm h ! i))"
      using k by (intro key_window_cong t) (simp add: slot_key_def)
    moreover have "in_window mem h i" using hashmap_invD(5) [OF inv i u] .
    ultimately show ?thesis using True at unfolding in_window_def by simp
  next
    case False
    then have e: "data_hm ?h' ! j = data_hm h ! j" using d by simp
    then have "in_window mem h j" using hashmap_invD(5) [OF inv, of j] j uj d by simp
    then show ?thesis using in_window_cong [OF t e] by simp
  qed
  have sk: "slot_key mem (data_hm ?h' ! j) = slot_key mem (data_hm h ! j)"
    and us: "used (data_hm ?h' ! j) = used (data_hm h ! j)" if "j < length (data_hm h)" for j
    using that d k u u' i by (cases "j = i"; simp)+
  show "j = l" if jl: "j < length (data_hm ?h')" "l < length (data_hm ?h')"
    "used (data_hm ?h' ! j)" "used (data_hm ?h' ! l)"
    "slot_key mem (data_hm ?h' ! j) = slot_key mem (data_hm ?h' ! l)" for j l
  proof -
    have "j < length (data_hm h)" "l < length (data_hm h)" using jl d by simp_all
    then show ?thesis using hashmap_invD(6) [OF inv, of j l] jl sk us by simp
  qed
qed

section \<open>Growth and insertion on valid tables\<close>

subsection \<open>A new table\<close>

lemma hashmap_inv_empty:
  assumes "power_of_two n"
  shows "hashmap_inv mem (out\<lparr>tableSize := n, size_hm := 0, data_hm := replicate (unat n) zero_element\<rparr>)"
    and "entries mem (out\<lparr>tableSize := n, size_hm := 0, data_hm := replicate (unat n) zero_element\<rparr>) = {}"
  using assms by (auto simp: hashmap_inv_def entries_def zero_element_def)

lemma hashmapCreate_success:
  assumes "hashmapCreate n out a = (0, new, a1)"
  shows "power_of_two n"
    and "new = out\<lparr>tableSize := n, size_hm := 0, data_hm := replicate (unat n) zero_element\<rparr>"
  using assms calloc_cases [of "unat n" a] capacity_check_iff [of n]
  by (auto simp: hashmapCreate_def Let_def split: if_splits)

lemma hashmapCreate_flag:
  "hashmapCreate n out a = (flag, new, a1) \<Longrightarrow> flag = 0 \<or> flag = 1"
  by (auto simp: hashmapCreate_def Let_def split: if_splits option.splits prod.splits)

subsection \<open>The old table during a traversal\<close>

lemma visit_slots_old:
  assumes kk: "keeps_key mem f"
  shows "visit_slots f h0 js h ctx = Some (r, h', ctx') \<Longrightarrow> hashmap_inv mem h \<Longrightarrow> distinct js \<Longrightarrow>
   \<forall>i \<in> set js. i < length (data_hm h) \<and> used (data_hm h ! i) \<and> data_hm h ! i = data_hm h0 ! i \<Longrightarrow>
   hashmap_inv mem h' \<and> tableSize h' = tableSize h \<and> (r = 0 \<or> r = 1) \<and>
   (leaves_slot f \<longrightarrow> entries mem h' \<subseteq> entries mem h)"
proof (induction js arbitrary: h ctx)
  case Nil
  then show ?case by simp
next
  case (Cons i js)
  from Cons.prems(1) obtain ret c1 e' where f: "f ctx (data_hm h0 ! i) = Some (ret, c1, e')"
    by (auto split: option.splits)
  have i: "i < length (data_hm h)" "used (data_hm h ! i)" "data_hm h ! i = data_hm h0 ! i"
    using Cons.prems(4) by auto
  have e': "used e'" "slot_key mem e' = slot_key mem (data_hm h ! i)"
    using kk f i(2,3) unfolding keeps_key_def by metis+
  have dj: "distinct js" using Cons.prems(3) by simp
  have inv_w: "hashmap_inv mem (write_slot h i e')"
    by (rule hashmap_inv_write_slot [OF Cons.prems(2) i(1,2) e'])
  have same: "write_slot h i e' = h" if "leaves_slot f"
  proof -
    have "e' = data_hm h ! i" using that f i(3) unfolding leaves_slot_def by metis
    then show ?thesis by (simp add: write_slot_def)
  qed
  have keep: "j < length (data_hm h1) \<and> used (data_hm h1 ! j) \<and> data_hm h1 ! j = data_hm h0 ! j"
    if "j \<in> set js" "data_hm h1 = (data_hm h)[i := x]" for j h1 x
  proof -
    have "i \<noteq> j" using that(1) Cons.prems(3) by auto
    then have "data_hm h1 ! j = data_hm h ! j" "length (data_hm h1) = length (data_hm h)"
      using that(2) by simp_all
    moreover have "j < length (data_hm h) \<and> used (data_hm h ! j) \<and> data_hm h ! j = data_hm h0 ! j"
      using Cons.prems(4) that(1) by (meson list.set_intros(2))
    ultimately show ?thesis by metis
  qed
  show ?case
  proof (cases "ret = - 1")
    case True
    let ?h1 = "clear_slot h i"
    have v: "visit_slots f h0 js ?h1 c1 = Some (r, h', ctx')" using Cons.prems(1) f True by simp
    have inv1: "hashmap_inv mem ?h1" by (rule hashmap_inv_clear_slot [OF Cons.prems(2) i(1,2)])
    have k1: "\<forall>j \<in> set js. j < length (data_hm ?h1) \<and> used (data_hm ?h1 ! j) \<and>
        data_hm ?h1 ! j = data_hm h0 ! j"
    proof
      fix j assume j: "j \<in> set js"
      show "j < length (data_hm ?h1) \<and> used (data_hm ?h1 ! j) \<and> data_hm ?h1 ! j = data_hm h0 ! j"
        by (rule keep [OF j, of ?h1 zero_element]) (simp add: clear_slot_def)
    qed
    have "entries mem ?h1 \<subseteq> entries mem h"
      using entries_clear_slot [OF Cons.prems(2) i(1,2)] by auto
    moreover have "tableSize ?h1 = tableSize h" by (simp add: clear_slot_def)
    ultimately show ?thesis using Cons.IH [OF v inv1 dj k1] by auto
  next
    case False
    let ?h1 = "write_slot h i e'"
    have t1: "tableSize ?h1 = tableSize h" by (simp add: write_slot_def)
    show ?thesis
    proof (cases "ret = 0")
      case True
      then have v: "visit_slots f h0 js ?h1 c1 = Some (r, h', ctx')" using Cons.prems(1) f by simp
      have k1: "\<forall>j \<in> set js. j < length (data_hm ?h1) \<and> used (data_hm ?h1 ! j) \<and>
          data_hm ?h1 ! j = data_hm h0 ! j"
      proof
        fix j assume j: "j \<in> set js"
        show "j < length (data_hm ?h1) \<and> used (data_hm ?h1 ! j) \<and> data_hm ?h1 ! j = data_hm h0 ! j"
          by (rule keep [OF j, of ?h1 e']) (simp add: write_slot_def)
      qed
      from Cons.IH [OF v inv_w dj k1] show ?thesis using t1 same by auto
    next
      case F: False
      then have "r = 1" "h' = ?h1" using Cons.prems(1) f False by auto
      then show ?thesis using inv_w t1 same by auto
    qed
  qed
qed

lemma occupied_bounds:
  "length (data_hm h) = unat (tableSize h) \<Longrightarrow>
   \<forall>i \<in> set (occupied h). i < length (data_hm h) \<and> used (data_hm h ! i) \<and>
     data_hm h ! i = data_hm h ! i"
  by (simp add: occupied_def)

lemma hashmapApplyIterator_inv:
  assumes kk: "keeps_key mem f"
    and "hashmapApplyIterator f h ctx = Some (r, h', ctx')" and inv: "hashmap_inv mem h"
  shows "hashmap_inv mem h' \<and> tableSize h' = tableSize h \<and> (r = 0 \<or> r = 1) \<and>
         (leaves_slot f \<longrightarrow> entries mem h' \<subseteq> entries mem h)"
proof -
  have v: "visit_slots f h (occupied h) h ctx = Some (r, h', ctx')"
    using assms(2) by (simp add: hashmapApplyIterator_visit)
  have d: "distinct (occupied h)" using occupied_props by blast
  show ?thesis
    by (rule visit_slots_old [OF kk v inv d occupied_bounds [OF hashmap_invD(3) [OF inv]]])
qed

subsection \<open>The new table during a rehash\<close>

lemma rehash_step:
  "hashmapRehashIterator_with put mem (new, a) e =
     (case put mem new (key e) (keyLen e) (data e) a of
        None \<Rightarrow> None
      | Some (flag, new', a') \<Rightarrow> Some (if flag \<noteq> 0 then 1 else - 1, (new', a'), e))"
  by (simp add: hashmapRehashIterator_with_def)

lemma rehash_visitor_reads:
  "keeps_key mem (hashmapRehashIterator_with put mem')"
  "leaves_slot (hashmapRehashIterator_with put mem')"
  unfolding keeps_key_def leaves_slot_def
  by (auto simp: hashmapRehashIterator_with_def split: option.splits)

lemma rehash_visit_new:
  assumes ps: "put_spec mem put"
  shows "visit_slots (hashmapRehashIterator_with put mem) h0 js h (new, a) = Some (r, h', (new', a')) \<Longrightarrow>
   hashmap_inv mem new \<Longrightarrow> distinct js \<Longrightarrow>
   inj_on (\<lambda>i. slot_key mem (data_hm h0 ! i)) (set js) \<Longrightarrow>
   \<forall>i \<in> set js. slot_key mem (data_hm h0 ! i) \<notin> fst ` entries mem new \<Longrightarrow>
   hashmap_inv mem new' \<and>
   (r = 0 \<longrightarrow>
      entries mem new' =
        entries mem new \<union> (\<lambda>i. (slot_key mem (data_hm h0 ! i), data (data_hm h0 ! i))) ` set js \<and>
      unat (size_hm new') = unat (size_hm new) + length js)"
proof (induction js arbitrary: h new a)
  case Nil
  then show ?case by simp
next
  case (Cons i js)
  let ?e = "data_hm h0 ! i"
  let ?kb = "slot_key mem ?e"
  from Cons.prems(1) obtain flag new1 a1 where
    p: "put mem new (key ?e) (keyLen ?e) (data ?e) a = Some (flag, new1, a1)"
    by (auto simp: rehash_step split: option.splits)
  have kb: "key_bytes mem (key ?e) (keyLen ?e) = ?kb" by (simp add: slot_key_def)
  from ps Cons.prems(2) p have
    inv1: "hashmap_inv mem new1" and fl: "flag = 0 \<or> flag = 1" and
    ok: "flag = 0 \<Longrightarrow>
      entries mem new1 = {(b, x) \<in> entries mem new. b \<noteq> ?kb} \<union> {(?kb, data ?e)} \<and>
      unat (size_hm new1) = unat (size_hm new) + (if present mem new (key ?e) (keyLen ?e) then 0 else 1)"
    unfolding put_spec_def kb [symmetric] by blast+
  show ?case
  proof (cases "flag = 0")
    case False
    then have "r = 1" "new' = new1"
      using Cons.prems(1) p by (auto simp: rehash_step)
    then show ?thesis using inv1 by simp
  next
    case True
    then have v: "visit_slots (hashmapRehashIterator_with put mem) h0 js (clear_slot h i) (new1, a1) =
        Some (r, h', (new', a'))"
      using Cons.prems(1) p by (simp add: rehash_step)
    have absent: "?kb \<notin> fst ` entries mem new" using Cons.prems(5) by simp
    then have np: "\<not> present mem new (key ?e) (keyLen ?e)" by (simp add: present_def kb)
    have same: "{(b, x) \<in> entries mem new. b \<noteq> ?kb} = entries mem new"
      using absent by force
    have e1: "entries mem new1 = entries mem new \<union> {(?kb, data ?e)}"
      and s1: "unat (size_hm new1) = unat (size_hm new) + 1"
      using ok [OF True] np same by simp_all
    have dj: "distinct js" and inj: "inj_on (\<lambda>i. slot_key mem (data_hm h0 ! i)) (set js)"
      using Cons.prems(3,4) by simp_all
    have fresh: "\<forall>j \<in> set js. slot_key mem (data_hm h0 ! j) \<notin> fst ` entries mem new1"
    proof
      fix j assume j: "j \<in> set js"
      then have "j \<noteq> i" using Cons.prems(3) by auto
      then have "slot_key mem (data_hm h0 ! j) \<noteq> ?kb"
        using Cons.prems(4) j by (auto simp: inj_on_def)
      moreover have "slot_key mem (data_hm h0 ! j) \<notin> fst ` entries mem new"
        using Cons.prems(5) j by simp
      ultimately show "slot_key mem (data_hm h0 ! j) \<notin> fst ` entries mem new1"
        unfolding e1 by auto
    qed
    from Cons.IH [OF v inv1 dj inj fresh] show ?thesis
      unfolding e1 s1 by auto
  qed
qed

lemma length_filter_nth:
  "length (filter (\<lambda>i. P (xs ! i)) [0..<length xs]) = length (filter P xs)"
proof -
  have "filter P xs = filter P (map (\<lambda>i. xs ! i) [0..<length xs])" by (simp add: map_nth)
  also have "\<dots> = map (\<lambda>i. xs ! i) (filter (\<lambda>i. P (xs ! i)) [0..<length xs])"
    by (simp add: filter_map comp_def)
  finally show ?thesis by (metis length_map)
qed

lemma occupied_entries:
  assumes "length (data_hm h) = unat (tableSize h)"
  shows "(\<lambda>i. (slot_key mem (data_hm h ! i), data (data_hm h ! i))) ` set (occupied h) = entries mem h"
    and "length (occupied h) = length (filter used (data_hm h))"
proof -
  show "(\<lambda>i. (slot_key mem (data_hm h ! i), data (data_hm h ! i))) ` set (occupied h) = entries mem h"
    using assms by (auto simp: occupied_def entries_iff image_iff)
  show "length (occupied h) = length (filter used (data_hm h))"
    using length_filter_nth [of used "data_hm h"] assms by (simp add: occupied_def)
qed

lemma occupied_inj:
  assumes inv: "hashmap_inv mem h"
  shows "inj_on (\<lambda>i. slot_key mem (data_hm h ! i)) (set (occupied h))"
  using hashmap_invD(6) [OF inv] hashmap_invD(3) [OF inv]
  by (auto simp: inj_on_def occupied_def)

lemma hashmapExpand_with_props:
  assumes ps: "put_spec mem put" and inv: "hashmap_inv mem h"
    and e: "hashmapExpand_with put mem h a = Some (flag, h', a')"
  shows "hashmap_inv mem h' \<and> (flag = 0 \<or> flag = 1) \<and>
         (flag = 0 \<longrightarrow> entries mem h' = entries mem h \<and> unat (size_hm h') = unat (size_hm h)) \<and>
         (flag \<noteq> 0 \<longrightarrow> tableSize h' = tableSize h \<and> entries mem h' \<subseteq> entries mem h)"
proof -
  obtain f0 new0 a0 where c: "hashmapCreate (2 * tableSize h) newHash_initial a = (f0, new0, a0)"
    by (metis prod_cases3)
  show ?thesis
  proof (cases "f0 = 0")
    case False
    then have "flag = f0" "h' = h" using e c by (simp_all add: hashmapExpand_with_def)
    then show ?thesis using inv False hashmapCreate_flag [OF c] by auto
  next
    case True
    let ?new0 = "newHash_initial\<lparr>tableSize := 2 * tableSize h, size_hm := 0,
                   data_hm := replicate (unat (2 * tableSize h)) zero_element\<rparr>"
    from c True have c0: "hashmapCreate (2 * tableSize h) newHash_initial a = (0, new0, a0)"
      by simp
    have n0: "new0 = ?new0" and p2: "power_of_two (2 * tableSize h)"
      using hashmapCreate_success [OF c0] by simp_all
    have inv0: "hashmap_inv mem new0" and e0: "entries mem new0 = {}"
      unfolding n0 using hashmap_inv_empty [OF p2] by simp_all
    have s0: "unat (size_hm new0) = 0" unfolding n0 by simp
    from e c True obtain r h2 new2 a2 where
      it: "hashmapApplyIterator (hashmapRehashIterator_with put mem) h (new0, a0) = Some (r, h2, (new2, a2))"
      by (auto simp: hashmapExpand_with_def split: option.splits)
    show ?thesis
    proof (cases "r = 0")
      case False
      then have "flag = r" "h' = h2"
        using e c True it by (simp_all add: hashmapExpand_with_def)
      then show ?thesis
        using hashmapApplyIterator_inv [OF rehash_visitor_reads(1) it inv] rehash_visitor_reads(2) False
        by auto
    next
      case r0: True
      then have res: "flag = 0" "h' = new2"
        using e c True it by (simp_all add: hashmapExpand_with_def)
      have v: "visit_slots (hashmapRehashIterator_with put mem) h (occupied h) h (new0, a0) =
          Some (r, h2, (new2, a2))"
        using it by (simp add: hashmapApplyIterator_visit)
      have d: "distinct (occupied h)" using occupied_props by blast
      have fresh: "\<forall>i \<in> set (occupied h). slot_key mem (data_hm h ! i) \<notin> fst ` entries mem new0"
        using e0 by simp
      note l = hashmap_invD(3) [OF inv]
      from rehash_visit_new [OF ps v inv0 d occupied_inj [OF inv] fresh] r0
      have "hashmap_inv mem new2" "entries mem new2 = entries mem h"
        "unat (size_hm new2) = unat (size_hm h)"
        using e0 s0 occupied_entries(1) [OF l, of mem] occupied_entries(2) [OF l]
          hashmap_invD(4) [OF inv] by simp_all
      then show ?thesis using res by simp
    qed
  qed
qed

lemma put_spec_hashmapPut: "put_spec mem (hashmapPut fuel)"
proof (induction fuel)
  case 0
  show ?case by (simp add: put_spec_def)
next
  case (Suc n)
  show ?case
    unfolding put_spec_def
  proof (intro allI impI, elim conjE)
    fix h k len v a flag h' a'
    assume inv: "hashmap_inv mem h"
      and p: "hashmapPut (Suc n) mem h k len v a = Some (flag, h', a')"
    let ?goal = "hashmap_inv mem h' \<and> (flag = 0 \<or> flag = 1) \<and>
          (flag = 0 \<longrightarrow>
             entries mem h' =
               {(b, x) \<in> entries mem h. b \<noteq> key_bytes mem k len} \<union> {(key_bytes mem k len, v)} \<and>
             unat (size_hm h') = unat (size_hm h) + (if present mem h k len then 0 else 1) \<and>
             (\<exists>i < length (data_hm h'). data_hm h' ! i = entry k len v)) \<and>
          (flag \<noteq> 0 \<longrightarrow> entries mem h' \<subseteq> entries mem h)"
    show ?goal
    proof (cases "hashmapGetBucket mem h k len")
      case (Some c)
      then have res: "flag = 0" "h' = put_element h c k len v" using p by simp_all
      note g = hashmapGetBucket_SomeD [OF inv Some]
      note pe = put_element_props [OF inv g, of v]
      show ?thesis unfolding res using pe by blast
    next
      case None
      then obtain f1 h1 a1 where
        ex: "hashmapExpand_with (hashmapPut n) mem h a = Some (f1, h1, a1)"
        using p by (auto split: option.splits)
      note ep = hashmapExpand_with_props [OF Suc.IH inv ex]
      show ?thesis
      proof (cases "f1 = 0")
        case False
        then have "flag = 1" "h' = h1" using p None ex by simp_all
        then show ?thesis using ep False by simp
      next
        case True
        then have p': "hashmapPut n mem h1 k len v a1 = Some (flag, h', a')"
          using p None ex by simp
        have inv1: "hashmap_inv mem h1" using ep by simp
        have e1: "entries mem h1 = entries mem h" and s1: "unat (size_hm h1) = unat (size_hm h)"
          using ep True by simp_all
        have pr: "present mem h1 k len = present mem h k len" by (simp add: present_def e1)
        have t1: "flag \<noteq> 0 \<Longrightarrow> entries mem h' \<subseteq> entries mem h1"
          using Suc.IH inv1 p' unfolding put_spec_def by blast
        have "hashmap_inv mem h' \<and> (flag = 0 \<or> flag = 1) \<and>
          (flag = 0 \<longrightarrow>
             entries mem h' =
               {(b, x) \<in> entries mem h1. b \<noteq> key_bytes mem k len} \<union> {(key_bytes mem k len, v)} \<and>
             unat (size_hm h') = unat (size_hm h1) + (if present mem h1 k len then 0 else 1) \<and>
             (\<exists>i < length (data_hm h'). data_hm h' ! i = entry k len v))"
          using Suc.IH inv1 p' unfolding put_spec_def by blast
        then show ?thesis using t1 unfolding e1 s1 pr by blast
      qed
    qed
  qed
qed

section \<open>hashmapPut returns, and its result does not depend on the fuel\<close>

lemma unat_pow2: "k < 32 \<Longrightarrow> unat (2 ^ k :: u32) = 2 ^ k"
proof -
  assume k: "k < 32"
  have "(2 :: nat) ^ k < 2 ^ 32" using k by (rule power_strict_increasing) simp
  moreover have "unat (of_nat (2 ^ k) :: u32) = 2 ^ k mod 2 ^ 32"
    unfolding unat_of_nat by simp
  ultimately show ?thesis by simp
qed

lemma power_of_two_double:
  assumes "power_of_two x" "power_of_two (2 * x)"
  shows "unat (2 * x) = 2 * unat x" and "x \<le> 2 * x"
proof -
  from assms(1) obtain k where k: "k < 32" "x = 2 ^ k" unfolding power_of_two_def by auto
  have "k \<noteq> 31"
  proof
    assume "k = 31"
    then have "2 * x = 0" using k by simp
    then show False using power_of_two_nonzero [OF assms(2)] by simp
  qed
  then have sk: "Suc k < 32" using k by simp
  have "2 * x = 2 ^ Suc k" using k by simp
  then show "unat (2 * x) = 2 * unat x"
    using unat_pow2 [OF sk] unat_pow2 [OF k(1)] k(2) by simp
  then show "x \<le> 2 * x" by (simp add: word_le_nat_alt)
qed

lemma power_of_two_unat: "power_of_two x \<Longrightarrow> 1 \<le> unat x \<and> unat x \<le> 2 ^ 31"
proof -
  assume "power_of_two x"
  then obtain k where k: "k < 32" "x = 2 ^ k" unfolding power_of_two_def by auto
  then have "k \<le> 31" by simp
  then have "(2 :: nat) ^ k \<le> 2 ^ 31" by (rule power_increasing) simp
  then show ?thesis using unat_pow2 [OF k(1)] k(2) by simp
qed

lemma visit_slots_tableSize:
  "visit_slots f h0 js h ctx = Some (r, h', ctx') \<Longrightarrow> tableSize h' = tableSize h"
proof (induction js arbitrary: h ctx)
  case Nil
  then show ?case by simp
next
  case (Cons i js)
  from Cons.prems obtain ret c1 e' where f: "f ctx (data_hm h0 ! i) = Some (ret, c1, e')"
    by (auto split: option.splits)
  consider "ret = - 1" | "ret = 0" | "ret \<noteq> - 1" "ret \<noteq> 0" by blast
  then show ?case
  proof cases
    case 1
    then have "visit_slots f h0 js (clear_slot h i) c1 = Some (r, h', ctx')"
      using Cons.prems f by simp
    from Cons.IH [OF this] show ?thesis by (simp add: clear_slot_def)
  next
    case 2
    then have "visit_slots f h0 js (write_slot h i e') c1 = Some (r, h', ctx')"
      using Cons.prems f by simp
    from Cons.IH [OF this] show ?thesis by (simp add: write_slot_def)
  next
    case 3
    then show ?thesis using Cons.prems f by (auto simp: write_slot_def)
  qed
qed

lemma rehash_visit_capacity:
  assumes cs: "capacity_spec mem put"
  shows "visit_slots (hashmapRehashIterator_with put mem) h0 js h (new, a) = Some (r, h', (new', a')) \<Longrightarrow>
   power_of_two (tableSize new) \<Longrightarrow>
   power_of_two (tableSize new') \<and> tableSize new \<le> tableSize new'"
proof (induction js arbitrary: h new a)
  case Nil
  then show ?case by simp
next
  case (Cons i js)
  let ?e = "data_hm h0 ! i"
  from Cons.prems(1) obtain flag new1 a1 where
    p: "put mem new (key ?e) (keyLen ?e) (data ?e) a = Some (flag, new1, a1)"
    by (auto simp: rehash_step split: option.splits)
  have c1: "power_of_two (tableSize new1) \<and> tableSize new \<le> tableSize new1"
    using cs Cons.prems(2) p unfolding capacity_spec_def by blast
  show ?case
  proof (cases "flag = 0")
    case False
    then have "new' = new1" using Cons.prems(1) p by (auto simp: rehash_step)
    then show ?thesis using c1 by simp
  next
    case True
    then have "visit_slots (hashmapRehashIterator_with put mem) h0 js (clear_slot h i) (new1, a1) =
        Some (r, h', (new', a'))"
      using Cons.prems(1) p by (simp add: rehash_step)
    from Cons.IH [OF this] c1 show ?thesis by auto
  qed
qed

lemma hashmapExpand_with_capacity:
  assumes cs: "capacity_spec mem put" and p2: "power_of_two (tableSize h)"
    and e: "hashmapExpand_with put mem h a = Some (flag, h', a')"
  shows "power_of_two (tableSize h') \<and> tableSize h \<le> tableSize h' \<and>
         (flag = 0 \<longrightarrow> 2 * unat (tableSize h) \<le> unat (tableSize h'))"
proof -
  obtain f0 new0 a0 where c: "hashmapCreate (2 * tableSize h) newHash_initial a = (f0, new0, a0)"
    by (metis prod_cases3)
  show ?thesis
  proof (cases "f0 = 0")
    case False
    then have "flag = f0" "h' = h" using e c by (simp_all add: hashmapExpand_with_def)
    then show ?thesis using p2 False by simp
  next
    case True
    from c True have c0: "hashmapCreate (2 * tableSize h) newHash_initial a = (0, new0, a0)"
      by simp
    note cr = hashmapCreate_success [OF c0]
    have t0: "tableSize new0 = 2 * tableSize h" using cr(2) by simp
    from e c True obtain r h2 new2 a2 where
      it: "hashmapApplyIterator (hashmapRehashIterator_with put mem) h (new0, a0) = Some (r, h2, (new2, a2))"
      by (auto simp: hashmapExpand_with_def split: option.splits)
    have v: "visit_slots (hashmapRehashIterator_with put mem) h (occupied h) h (new0, a0) =
          Some (r, h2, (new2, a2))"
      using it by (simp add: hashmapApplyIterator_visit)
    show ?thesis
    proof (cases "r = 0")
      case False
      then have "flag = r" "h' = h2"
        using e c True it by (simp_all add: hashmapExpand_with_def)
      then show ?thesis using visit_slots_tableSize [OF v] p2 False by simp
    next
      case r0: True
      then have res: "flag = 0" "h' = new2"
        using e c True it by (simp_all add: hashmapExpand_with_def)
      have "power_of_two (tableSize new2) \<and> tableSize new0 \<le> tableSize new2"
        using rehash_visit_capacity [OF cs v] cr(1) t0 by simp
      moreover note d = power_of_two_double [OF p2 cr(1)]
      ultimately show ?thesis using res t0 by (auto simp: word_le_nat_alt)
    qed
  qed
qed

lemma put_element_tableSize [simp]: "tableSize (put_element h c k len v) = tableSize h"
  by (simp add: put_element_eq)

lemma capacity_spec_hashmapPut: "capacity_spec mem (hashmapPut fuel)"
proof (induction fuel)
  case 0
  show ?case by (simp add: capacity_spec_def)
next
  case (Suc n)
  show ?case
    unfolding capacity_spec_def
  proof (intro allI impI, elim conjE)
    fix h k len v a flag h' a'
    assume p2: "power_of_two (tableSize h)"
      and p: "hashmapPut (Suc n) mem h k len v a = Some (flag, h', a')"
    show "power_of_two (tableSize h') \<and> tableSize h \<le> tableSize h'"
    proof (cases "hashmapGetBucket mem h k len")
      case (Some c)
      then have "h' = put_element h c k len v" using p by simp
      then show ?thesis using p2 by simp
    next
      case None
      then obtain f1 h1 a1 where
        ex: "hashmapExpand_with (hashmapPut n) mem h a = Some (f1, h1, a1)"
        using p by (auto split: option.splits)
      note ec = hashmapExpand_with_capacity [OF Suc.IH p2 ex]
      show ?thesis
      proof (cases "f1 = 0")
        case False
        then have "h' = h1" using p None ex by simp
        then show ?thesis using ec by simp
      next
        case True
        then have "hashmapPut n mem h1 k len v a1 = Some (flag, h', a')"
          using p None ex by simp
        then have "power_of_two (tableSize h') \<and> tableSize h1 \<le> tableSize h'"
          using Suc.IH ec unfolding capacity_spec_def by blast
        then show ?thesis using ec by auto
      qed
    qed
  qed
qed

lemma rehash_visit_returns:
  assumes cs: "capacity_spec mem put"
    and tot: "\<And>new k len v a. power_of_two (tableSize new) \<Longrightarrow> B \<le> unat (tableSize new) \<Longrightarrow>
                \<exists>r. put mem new k len v a = Some r"
  shows "power_of_two (tableSize new) \<Longrightarrow> B \<le> unat (tableSize new) \<Longrightarrow>
         \<exists>r. visit_slots (hashmapRehashIterator_with put mem) h0 js h (new, a) = Some r"
proof (induction js arbitrary: h new a)
  case Nil
  then show ?case by simp
next
  case (Cons i js)
  let ?e = "data_hm h0 ! i"
  from tot [OF Cons.prems] obtain flag new1 a1 where
    p: "put mem new (key ?e) (keyLen ?e) (data ?e) a = Some (flag, new1, a1)"
    by (metis prod_cases3)
  have c1: "power_of_two (tableSize new1)" "tableSize new \<le> tableSize new1"
    using cs Cons.prems(1) p unfolding capacity_spec_def by blast+
  then have b1: "B \<le> unat (tableSize new1)" using Cons.prems(2) by (simp add: word_le_nat_alt)
  show ?case
  proof (cases "flag = 0")
    case False
    then show ?thesis using p by (simp add: rehash_step)
  next
    case True
    then show ?thesis using p Cons.IH [OF c1(1) b1, of "clear_slot h i" a1]
      by (simp add: rehash_step)
  qed
qed

lemma hashmapExpand_with_returns:
  assumes cs: "capacity_spec mem put" and p2: "power_of_two (tableSize h)"
    and tot: "\<And>new k len v a. power_of_two (tableSize new) \<Longrightarrow>
                2 * unat (tableSize h) \<le> unat (tableSize new) \<Longrightarrow>
                \<exists>r. put mem new k len v a = Some r"
  shows "\<exists>r. hashmapExpand_with put mem h a = Some r"
proof -
  obtain f0 new0 a0 where c: "hashmapCreate (2 * tableSize h) newHash_initial a = (f0, new0, a0)"
    by (metis prod_cases3)
  show ?thesis
  proof (cases "f0 = 0")
    case False
    then show ?thesis using c by (simp add: hashmapExpand_with_def)
  next
    case True
    from c True have c0: "hashmapCreate (2 * tableSize h) newHash_initial a = (0, new0, a0)"
      by simp
    note cr = hashmapCreate_success [OF c0]
    have t0: "tableSize new0 = 2 * tableSize h" using cr(2) by simp
    have p0: "power_of_two (tableSize new0)" using cr(1) t0 by simp
    have b0: "2 * unat (tableSize h) \<le> unat (tableSize new0)"
      using power_of_two_double(1) [OF p2 cr(1)] t0 by simp
    from rehash_visit_returns [of mem put "2 * unat (tableSize h)", OF cs tot p0 b0]
    obtain r where "visit_slots (hashmapRehashIterator_with put mem) h (occupied h) h (new0, a0) = Some r"
      by blast
    then show ?thesis using c True
      by (cases r) (auto simp: hashmapExpand_with_def hashmapApplyIterator_visit Let_def)
  qed
qed

lemma hashmapPut_returns_aux:
  "power_of_two (tableSize h) \<Longrightarrow> 2 ^ 31 \<le> unat (tableSize h) * 2 ^ n \<Longrightarrow>
   \<exists>r. hashmapPut (Suc n) mem h k len v a = Some r"
proof (induction n arbitrary: h k len v a)
  case 0
  show ?case
  proof (cases "hashmapGetBucket mem h k len")
    case (Some c)
    then show ?thesis by simp
  next
    case None
    have "unat (tableSize h) = 2 ^ 31"
      using power_of_two_unat [OF "0.prems"(1)] "0.prems"(2) by simp
    then have "unat (tableSize h) = unat (2 ^ 31 :: u32)" by simp
    then have "tableSize h = 2 ^ 31" by (simp only: word_unat_eq_iff)
    then have "2 * tableSize h = 0" by simp
    then have "hashmapExpand_with (hashmapPut 0) mem h a = Some (1, h, a)"
      by (simp add: hashmapExpand_with_def hashmapCreate_def)
    then show ?thesis using None by simp
  qed
next
  case (Suc m)
  show ?case
  proof (cases "hashmapGetBucket mem h k len")
    case (Some c)
    then show ?thesis by simp
  next
    case None
    have tot: "\<exists>r. hashmapPut (Suc m) mem new k' len' v' a'' = Some r"
      if "power_of_two (tableSize new)" "2 * unat (tableSize h) \<le> unat (tableSize new)"
      for new k' len' v' a''
    proof -
      have "unat (tableSize h) * 2 ^ Suc m \<le> unat (tableSize new) * 2 ^ m"
        using that(2) by (simp add: mult.commute mult.left_commute)
      then have "2 ^ 31 \<le> unat (tableSize new) * 2 ^ m" using Suc.prems(2) by linarith
      from Suc.IH [OF that(1) this] show ?thesis .
    qed
    from hashmapExpand_with_returns [OF capacity_spec_hashmapPut Suc.prems(1) tot]
    obtain f1 h1 a1 where ex: "hashmapExpand_with (hashmapPut (Suc m)) mem h a = Some (f1, h1, a1)"
      by (metis prod_cases3)
    show ?thesis
    proof (cases "f1 = 0")
      case False
      then show ?thesis using None ex by simp
    next
      case True
      note ec = hashmapExpand_with_capacity [OF capacity_spec_hashmapPut Suc.prems(1) ex]
      have "\<exists>r. hashmapPut (Suc m) mem h1 k len v a1 = Some r"
        using tot [of h1] ec True by simp
      then show ?thesis using None ex True by simp
    qed
  qed
qed

lemma hashmapPut_returns:
  assumes "power_of_two (tableSize h)" "32 \<le> fuel"
  shows "\<exists>flag h' a'. hashmapPut fuel mem h k len v a = Some (flag, h', a')"
proof -
  from assms(2) obtain n where n: "fuel = Suc n" "31 \<le> n" by (cases fuel) auto
  have "(2 :: nat) ^ 31 \<le> 2 ^ n" using n(2) by (rule power_increasing) simp
  moreover have "1 \<le> unat (tableSize h)" using power_of_two_unat [OF assms(1)] by simp
  ultimately have "2 ^ 31 \<le> unat (tableSize h) * 2 ^ n"
    by (metis mult.left_neutral mult_le_mono)
  from hashmapPut_returns_aux [OF assms(1) this] n(1) show ?thesis
    by (metis prod_cases3)
qed

lemma hashmapExpand_returns:
  assumes "power_of_two (tableSize h)" "32 \<le> fuel"
  shows "\<exists>flag h' a'. hashmapExpand fuel mem h a = Some (flag, h', a')"
proof -
  have "\<exists>r. hashmapPut fuel mem new k len v a'' = Some r"
    if "power_of_two (tableSize new)" for new k len v a''
    using hashmapPut_returns [OF that assms(2), of mem k len v a''] by blast
  then have "\<exists>r. hashmapExpand_with (hashmapPut fuel) mem h a = Some r"
    by (intro hashmapExpand_with_returns [OF capacity_spec_hashmapPut assms(1)]) blast
  then show ?thesis unfolding hashmapExpand_def by (metis prod_cases3)
qed

lemma visit_slots_mono:
  assumes "\<And>ctx e r. f ctx e = Some r \<Longrightarrow> g ctx e = Some r"
  shows "visit_slots f h0 js h ctx = Some r \<Longrightarrow> visit_slots g h0 js h ctx = Some r"
proof (induction js arbitrary: h ctx)
  case Nil
  then show ?case by simp
next
  case (Cons i js)
  from Cons.prems obtain ret c1 e' where f: "f ctx (data_hm h0 ! i) = Some (ret, c1, e')"
    by (auto split: option.splits)
  then have g: "g ctx (data_hm h0 ! i) = Some (ret, c1, e')" by (rule assms)
  show ?case using Cons.prems f g Cons.IH by (auto split: if_splits)
qed

lemma hashmapExpand_with_mono:
  assumes "\<And>h k len v a r. put mem h k len v a = Some r \<Longrightarrow> put' mem h k len v a = Some r"
    and "hashmapExpand_with put mem h a = Some r"
  shows "hashmapExpand_with put' mem h a = Some r"
proof -
  have m: "hashmapRehashIterator_with put mem ctx e = Some x \<Longrightarrow>
           hashmapRehashIterator_with put' mem ctx e = Some x" for ctx e x
    using assms(1) [of "fst ctx" "key e" "keyLen e" "data e" "snd ctx"]
    by (auto simp: hashmapRehashIterator_with_def split: option.splits)
  obtain f0 new0 a0 where c: "hashmapCreate (2 * tableSize h) newHash_initial a = (f0, new0, a0)"
    by (metis prod_cases3)
  show ?thesis
  proof (cases "f0 = 0")
    case False
    then show ?thesis using assms(2) c by (simp add: hashmapExpand_with_def)
  next
    case True
    from assms(2) c True obtain x where
      v: "visit_slots (hashmapRehashIterator_with put mem) h (occupied h) h (new0, a0) = Some x"
      by (auto simp: hashmapExpand_with_def hashmapApplyIterator_visit split: option.splits)
    have "visit_slots (hashmapRehashIterator_with put' mem) h (occupied h) h (new0, a0) = Some x"
      by (rule visit_slots_mono [OF m v])
    then show ?thesis using assms(2) c True v
      by (simp add: hashmapExpand_with_def hashmapApplyIterator_visit)
  qed
qed

lemma hashmapPut_fuel_Suc:
  "hashmapPut n mem h k len v a = Some r \<Longrightarrow> hashmapPut (Suc n) mem h k len v a = Some r"
proof (induction n arbitrary: h k len v a r)
  case 0
  then show ?case by simp
next
  case (Suc n)
  show ?case
  proof (cases "hashmapGetBucket mem h k len")
    case (Some c)
    then show ?thesis using Suc.prems by simp
  next
    case None
    then obtain f1 h1 a1 where
      ex: "hashmapExpand_with (hashmapPut n) mem h a = Some (f1, h1, a1)"
      using Suc.prems by (auto split: option.splits)
    have ex': "hashmapExpand_with (hashmapPut (Suc n)) mem h a = Some (f1, h1, a1)"
      by (rule hashmapExpand_with_mono [of "hashmapPut n" mem "hashmapPut (Suc n)", OF Suc.IH ex])
    show ?thesis
    proof (cases "f1 = 0")
      case False
      then show ?thesis using Suc.prems None ex ex' by simp
    next
      case True
      then have "hashmapPut n mem h1 k len v a1 = Some r" using Suc.prems None ex by simp
      then have "hashmapPut (Suc n) mem h1 k len v a1 = Some r" by (rule Suc.IH)
      then show ?thesis using None ex' True by simp
    qed
  qed
qed

lemma hashmapPut_fuel_mono:
  "hashmapPut n mem h k len v a = Some r \<Longrightarrow> n \<le> m \<Longrightarrow> hashmapPut m mem h k len v a = Some r"
proof (induction m)
  case 0
  then show ?case by simp
next
  case (Suc m)
  show ?case
  proof (cases "n = Suc m")
    case True
    then show ?thesis using Suc.prems by simp
  next
    case False
    then have "n \<le> m" using Suc.prems by simp
    from hashmapPut_fuel_Suc [OF Suc.IH [OF Suc.prems(1) this]] show ?thesis .
  qed
qed

lemma hashmapPut_fuel_32:
  assumes "power_of_two (tableSize h)" "hashmapPut n mem h k len v a = Some r"
  shows "hashmapPut 32 mem h k len v a = Some r"
proof (cases "n \<le> 32")
  case True
  with assms(2) show ?thesis by (rule hashmapPut_fuel_mono)
next
  case False
  from hashmapPut_returns [OF assms(1) order_refl, of mem k len v a]
  obtain r' where r': "hashmapPut 32 mem h k len v a = Some r'" by auto
  then have "hashmapPut n mem h k len v a = Some r'"
    using False by (intro hashmapPut_fuel_mono [OF r']) simp
  with assms(2) r' show ?thesis by simp
qed

section \<open>The example tables are valid\<close>

lemma put_all_inv:
  "hashmap_inv mem h \<Longrightarrow> put_all mem h a xs = Some (flag, h', a') \<Longrightarrow> hashmap_inv mem h'"
proof (induction xs arbitrary: h a)
  case Nil
  then show ?case by simp
next
  case (Cons x xs)
  obtain k len v where x: "x = (k, len, v)" by (metis prod_cases3)
  from Cons.prems(2) obtain f1 h1 a1 where p: "hashmapPut 32 mem h k len v a = Some (f1, h1, a1)"
    unfolding x by (auto split: option.splits)
  have inv1: "hashmap_inv mem h1"
    using put_spec_hashmapPut [of mem 32] Cons.prems(1) p unfolding put_spec_def by blast
  show ?case
  proof (cases "f1 = 0")
    case True
    then have "put_all mem h1 a1 xs = Some (flag, h', a')" using Cons.prems(2) p x by simp
    from Cons.IH [OF inv1 this] show ?thesis .
  next
    case False
    then have "h' = h1" using Cons.prems(2) p x by simp
    then show ?thesis using inv1 by simp
  qed
qed

lemma hashmapCreate_inv:
  "hashmapCreate n out a = (0, h, a') \<Longrightarrow> hashmap_inv mem h"
  using hashmapCreate_success [of n out a h a'] hashmap_inv_empty(1) [of n mem out] by simp

lemma table9_inv: "hashmap_inv mem_ex table9"
proof -
  have "hashmapCreate 16 newHash_initial [] =
      (0, fst (snd (hashmapCreate 16 newHash_initial [])), [])"
    by code_simp
  then have "hashmap_inv mem_ex (fst (snd (hashmapCreate 16 newHash_initial [])))"
    by (rule hashmapCreate_inv)
  then show ?thesis using table9_reached by (rule put_all_inv)
qed

lemma table8_inv: "hashmap_inv mem_ex table8"
proof -
  have "present mem_ex table9 4 1" by code_simp
  then obtain i where i: "i < length (data_hm table9)" "used (data_hm table9 ! i)"
    "slot_key mem_ex (data_hm table9 ! i) = key_bytes mem_ex 4 1"
    unfolding present_iff by blast
  have "hashmapRemove mem_ex table9 4 1 = (0, clear_slot table9 i)"
    by (rule hashmapRemove_present [OF table9_inv i])
  then have "table8 = clear_slot table9 i" using table8_reached by simp
  then show ?thesis using hashmap_inv_clear_slot [OF table9_inv i(1,2)] by simp
qed

section \<open>Removal\<close>




section \<open>Insertion\<close>

text \<open>
  Claim C3. On a valid table, after a successful \<open>hashmapPut\<close> of a key with \<open>v1\<close> and a
  successful \<open>hashmapPut\<close> of the same key (the same bytes, at the same or another address)
  with \<open>v2\<close>, \<open>hashmapGet\<close> returns \<open>v2\<close>: the second call overwrites, the count stays, and a
  slot holds the key reference, the length and the value of the second call. The count
  grows by one in a \<open>hashmapPut\<close> exactly when the key was absent before. With fuel 32 the
  call returns.
\<close>

theorem hashmapPut_overwrites:
  assumes inv: "hashmap_inv mem h"
    and p1: "hashmapPut fuel1 mem h k len v1 a = Some (0, h1, a1)"
    and same: "key_bytes mem k2 len2 = key_bytes mem k len"
    and p2: "hashmapPut fuel2 mem h1 k2 len2 v2 a1 = Some (0, h2, a2)"
  shows "hashmapGet mem h1 k len = v1 \<and> hashmapGet mem h2 k len = v2 \<and>
         hashmapGet mem h2 k2 len2 = v2 \<and>
         unat (size_hm h1) = unat (size_hm h) + (if present mem h k len then 0 else 1) \<and>
         unat (size_hm h2) = unat (size_hm h1) \<and>
         entries mem h2 =
           {(b, x) \<in> entries mem h. b \<noteq> key_bytes mem k len} \<union> {(key_bytes mem k len, v2)} \<and>
         (\<exists>i < length (data_hm h2). data_hm h2 ! i = entry k2 len2 v2) \<and>
         hashmap_inv mem h2 \<and>
         (\<exists>r. hashmapPut 32 mem h k len v1 a = Some r)"
proof -
  let ?kb = "key_bytes mem k len"
  have s1: "hashmap_inv mem h1"
    "entries mem h1 = {(b, x) \<in> entries mem h. b \<noteq> ?kb} \<union> {(?kb, v1)}"
    "unat (size_hm h1) = unat (size_hm h) + (if present mem h k len then 0 else 1)"
    using put_spec_hashmapPut [of mem fuel1] inv p1 unfolding put_spec_def by blast+
  have pr: "present mem h1 k2 len2" unfolding present_def same s1(2) by simp
  have s2: "hashmap_inv mem h2"
    "entries mem h2 = {(b, x) \<in> entries mem h1. b \<noteq> ?kb} \<union> {(?kb, v2)}"
    "unat (size_hm h2) = unat (size_hm h1) + (if present mem h1 k2 len2 then 0 else 1)"
    "\<exists>i < length (data_hm h2). data_hm h2 ! i = entry k2 len2 v2"
    using put_spec_hashmapPut [of mem fuel2] s1(1) p2 unfolding put_spec_def same [symmetric]
    by blast+
  have e2: "entries mem h2 = {(b, x) \<in> entries mem h. b \<noteq> ?kb} \<union> {(?kb, v2)}"
    unfolding s2(2) s1(2) by auto
  have g1: "hashmapGet mem h1 k len = v1"
    by (rule hashmapGet_entries [OF s1(1)]) (simp add: s1(2))
  have g2: "hashmapGet mem h2 k len = v2"
    by (rule hashmapGet_entries [OF s2(1)]) (simp add: s2(2))
  have g3: "hashmapGet mem h2 k2 len2 = v2"
    by (rule hashmapGet_entries [OF s2(1)]) (simp add: s2(2) same)
  have r: "\<exists>r. hashmapPut 32 mem h k len v1 a = Some r"
    using hashmapPut_returns [OF hashmap_invD(1) [OF inv] order_refl, of mem k len v1 a] by blast
  show ?thesis using g1 g2 g3 s1(3) s2(3,4) pr e2 s2(1) r by simp
qed

theorem hashmapPut_overwrites_witness:
  "hashmap_inv mem_ex table8 \<and>
   hashmapPut 32 mem_ex table8 6 1 300 [] =
     Some (0, table8\<lparr>data_hm := (data_hm table8)[3 := entry 6 1 300]\<rparr>, []) \<and>
   key_bytes mem_ex 0 1 = key_bytes mem_ex 6 1 \<and>
   hashmapPut 32 mem_ex (table8\<lparr>data_hm := (data_hm table8)[3 := entry 6 1 300]\<rparr>) 0 1 301 [] =
     Some (0, table8\<lparr>data_hm := (data_hm table8)[3 := entry 0 1 301]\<rparr>, []) \<and>
   hashmapGet mem_ex (table8\<lparr>data_hm := (data_hm table8)[3 := entry 0 1 301]\<rparr>) 6 1 = 301 \<and>
   present mem_ex table8 6 1 \<and>
   size_hm (table8\<lparr>data_hm := (data_hm table8)[3 := entry 0 1 301]\<rparr>) = 8 \<and>
   hashmapPut 32 mem_ex table8 4 1 400 [] =
     Some (0, table8\<lparr>data_hm := (data_hm table8)[1 := entry 4 1 400], size_hm := 9\<rparr>, []) \<and>
   hashmapPut 32 mem_ex (table8\<lparr>data_hm := (data_hm table8)[1 := entry 4 1 400], size_hm := 9\<rparr>) 4 1 401 [] =
     Some (0, table8\<lparr>data_hm := (data_hm table8)[1 := entry 4 1 401], size_hm := 9\<rparr>, []) \<and>
   \<not> present mem_ex table8 4 1 \<and>
   hashmapGet mem_ex (table8\<lparr>data_hm := (data_hm table8)[1 := entry 4 1 401], size_hm := 9\<rparr>) 4 1 = 401"
proof -
  let ?A1 = "table8\<lparr>data_hm := (data_hm table8)[3 := entry 6 1 300]\<rparr>"
  let ?A2 = "table8\<lparr>data_hm := (data_hm table8)[3 := entry 0 1 301]\<rparr>"
  let ?B1 = "table8\<lparr>data_hm := (data_hm table8)[1 := entry 4 1 400], size_hm := 9\<rparr>"
  let ?B2 = "table8\<lparr>data_hm := (data_hm table8)[1 := entry 4 1 401], size_hm := 9\<rparr>"
  have a1: "hashmapPut 32 mem_ex table8 6 1 300 [] = Some (0, ?A1, [])" by code_simp
  have k: "key_bytes mem_ex 0 1 = key_bytes mem_ex 6 1" by code_simp
  have a2: "hashmapPut 32 mem_ex ?A1 0 1 301 [] = Some (0, ?A2, [])" by code_simp
  have b1: "hashmapPut 32 mem_ex table8 4 1 400 [] = Some (0, ?B1, [])" by code_simp
  have b2: "hashmapPut 32 mem_ex ?B1 4 1 401 [] = Some (0, ?B2, [])" by code_simp
  have pa: "present mem_ex table8 6 1" by code_simp
  have pb: "\<not> present mem_ex table8 4 1" by code_simp
  have sa: "size_hm ?A2 = 8" by code_simp
  show ?thesis
    using table8_inv a1 k a2 b1 b2 pa pb sa
      hashmapPut_overwrites [OF table8_inv a1 k a2]
      hashmapPut_overwrites [OF table8_inv b1 refl b2]
    by simp
qed

section \<open>Invariants of reachable tables\<close>

lemma hashmapRemove_inv:
  assumes "hashmap_inv mem h" "hashmapRemove mem h k len = (flag, h')"
  shows "hashmap_inv mem h'"
proof (cases "present mem h k len")
  case True
  then obtain i where i: "i < length (data_hm h)" "used (data_hm h ! i)"
    "slot_key mem (data_hm h ! i) = key_bytes mem k len"
    unfolding present_iff by blast
  have "hashmapRemove mem h k len = (0, clear_slot h i)"
    by (rule hashmapRemove_present [OF assms(1) i])
  then show ?thesis using assms(2) hashmap_inv_clear_slot [OF assms(1) i(1,2)] by simp
next
  case False
  then show ?thesis using hashmapRemove_absent [OF assms(1) False] assms by simp
qed

lemma reachable_inv:
  assumes V: "\<forall>f \<in> V. keeps_key mem f"
  shows "reachable mem V h \<Longrightarrow> hashmap_inv mem h"
proof (induction rule: reachable.induct)
  case (reach_create initialSize out a h a')
  then show ?case by (rule hashmapCreate_inv)
next
  case (reach_put h fuel k len v a flag h' a')
  then show ?case using put_spec_hashmapPut [of mem fuel] unfolding put_spec_def by blast
next
  case (reach_remove h k len flag h')
  then show ?case using hashmapRemove_inv by blast
next
  case (reach_iterate h f ctx flag h' ctx')
  have "keeps_key mem f" using V reach_iterate.hyps(2) by blast
  from hashmapApplyIterator_inv [OF this reach_iterate.hyps(3) reach_iterate.IH]
  show ?case by simp
next
  case (reach_expand h fuel a flag h' a')
  then show ?case
    using hashmapExpand_with_props [OF put_spec_hashmapPut, of mem h fuel a flag h' a']
    by (simp add: hashmapExpand_def)
qed

lemma hashmap_inv_size_le: "hashmap_inv mem h \<Longrightarrow> size_hm h \<le> tableSize h"
proof -
  assume inv: "hashmap_inv mem h"
  have "length (filter used (data_hm h)) \<le> length (data_hm h)" by (rule length_filter_le)
  then show ?thesis
    using hashmap_invD(3,4) [OF inv] by (simp add: word_le_nat_alt)
qed

lemma reachable_put_all:
  "reachable mem V h \<Longrightarrow> put_all mem h a xs = Some (flag, h', a') \<Longrightarrow> reachable mem V h'"
proof (induction xs arbitrary: h a)
  case Nil
  then show ?case by simp
next
  case (Cons x xs)
  obtain k len v where x: "x = (k, len, v)" by (metis prod_cases3)
  from Cons.prems(2) obtain f1 h1 a1 where p: "hashmapPut 32 mem h k len v a = Some (f1, h1, a1)"
    unfolding x by (auto split: option.splits)
  have r1: "reachable mem V h1" by (rule reach_put [OF Cons.prems(1) p])
  show ?case
  proof (cases "f1 = 0")
    case True
    then have "put_all mem h1 a1 xs = Some (flag, h', a')" using Cons.prems(2) p x by simp
    from Cons.IH [OF r1 this] show ?thesis .
  next
    case False
    then have "h' = h1" using Cons.prems(2) p x by simp
    then show ?thesis using r1 by simp
  qed
qed

lemma table9_reachable: "reachable mem_ex V table9"
proof -
  have "hashmapCreate 16 newHash_initial [] =
      (0, fst (snd (hashmapCreate 16 newHash_initial [])), [])"
    by code_simp
  then have "reachable mem_ex V (fst (snd (hashmapCreate 16 newHash_initial [])))"
    by (rule reach_create)
  then show ?thesis using table9_reached by (rule reachable_put_all)
qed

lemma table1_reachable: "reachable mem_ex V table1"
proof -
  have "hashmapExpand 32 mem_ex table9 [True, False] = Some (1, table1, [])"
    by code_simp
  with table9_reachable show ?thesis by (rule reach_expand)
qed

lemma table0_reachable: "reachable mem_ex {counting_visitor} table0"
proof -
  have "hashmapApplyIterator counting_visitor table9 0 = Some (0, table0, 9)"
    by code_simp
  then show ?thesis by (intro reach_iterate [OF table9_reachable]) simp_all
qed

lemma counting_visitor_keeps_key: "keeps_key mem counting_visitor"
  by (simp add: keeps_key_def counting_visitor_def)

text \<open>
  Claim C4. The claim holds for the tables reachable from a successful \<open>hashmapCreate\<close> by
  \<open>hashmapPut\<close>, \<open>hashmapRemove\<close>, \<open>hashmapExpand\<close> and \<open>hashmapApplyIterator\<close> with visitors
  that keep the key of their slot (they leave an occupied slot occupied and with the same key
  bytes), whether these calls succeed or fail: the capacity is a nonzero power of two, the
  count is at most the capacity (it is the number of occupied slots), and no two occupied
  slots hold keys that \<open>hashmapCheckIfMatch\<close> finds equal. As stated, for every visitor, it
  fails: \<open>hashmapApplyIterator\<close> hands the visitor a pointer to the slot, and a visitor that
  writes the key of its slot leaves occupied slots with equal keys
  (\<open>applyIterator_rekey_counterexample\<close>).
\<close>

theorem reachable_invariants:
  assumes "\<forall>f \<in> V. keeps_key mem f" and "reachable mem V h"
  shows "power_of_two (tableSize h) \<and> tableSize h \<noteq> 0 \<and> size_hm h \<le> tableSize h \<and>
         (\<forall>i \<in> {..<length (data_hm h)}. \<forall>j \<in> {..<length (data_hm h)}.
            used (data_hm h ! i) \<and> used (data_hm h ! j) \<and>
            hashmapCheckIfMatch mem (data_hm h ! i) (key (data_hm h ! j)) (keyLen (data_hm h ! j))
            \<longrightarrow> i = j) \<and>
         length (data_hm h) = unat (tableSize h) \<and>
         unat (size_hm h) = length (filter used (data_hm h)) \<and>
         hashmap_inv mem h"
proof -
  have inv: "hashmap_inv mem h" using assms by (rule reachable_inv)
  have "i = j" if "i < length (data_hm h)" "j < length (data_hm h)"
    "used (data_hm h ! i)" "used (data_hm h ! j)"
    "hashmapCheckIfMatch mem (data_hm h ! i) (key (data_hm h ! j)) (keyLen (data_hm h ! j))" for i j
    using hashmap_invD(6) [OF inv that(1-4)] that(5)
    by (simp add: hashmapCheckIfMatch_iff slot_key_def)
  then show ?thesis
    using inv hashmap_invD(1-4) [OF inv] hashmap_inv_size_le [OF inv] by auto
qed

theorem reachable_invariants_witness:
  "keeps_key mem_ex counting_visitor \<and>
   reachable mem_ex {counting_visitor} table9 \<and>
   power_of_two (tableSize table9) \<and> size_hm table9 \<le> tableSize table9 \<and>
   tableSize table9 = 16 \<and> size_hm table9 = 9 \<and>
   reachable mem_ex {counting_visitor} table1 \<and>
   power_of_two (tableSize table1) \<and> size_hm table1 \<le> tableSize table1 \<and>
   tableSize table1 = 16 \<and> size_hm table1 = 1 \<and>
   reachable mem_ex {counting_visitor} table0 \<and>
   power_of_two (tableSize table0) \<and> size_hm table0 \<le> tableSize table0 \<and>
   tableSize table0 = 16 \<and> size_hm table0 = 0"
proof -
  have 1: "tableSize table9 = 16" "size_hm table9 = 9" by (simp_all add: table9_def)
  have 2: "tableSize table1 = 16" "size_hm table1 = 1" by (simp_all add: table1_def)
  have 3: "tableSize table0 = 16" "size_hm table0 = 0" by (simp_all add: table0_def)
  have V: "\<forall>f \<in> {counting_visitor}. keeps_key mem_ex f"
    using counting_visitor_keeps_key by simp
  have r9: "reachable mem_ex {counting_visitor} table9" by (rule table9_reachable)
  have r1: "reachable mem_ex {counting_visitor} table1" by (rule table1_reachable)
  have r0: "reachable mem_ex {counting_visitor} table0" by (rule table0_reachable)
  have a: "power_of_two (tableSize table9)" "size_hm table9 \<le> tableSize table9"
    using reachable_invariants [OF V r9] by blast+
  have b: "power_of_two (tableSize table1)" "size_hm table1 \<le> tableSize table1"
    using reachable_invariants [OF V r1] by blast+
  have c: "power_of_two (tableSize table0)" "size_hm table0 \<le> tableSize table0"
    using reachable_invariants [OF V r0] by blast+
  show ?thesis using 1 2 3 r9 r1 r0 a b c counting_visitor_keeps_key [of mem_ex] by blast
qed

theorem applyIterator_rekey_counterexample:
  "reachable mem_ex {rekey_visitor} table9 \<and>
   hashmapApplyIterator rekey_visitor table9 () = Some (0, table9_rekeyed, ()) \<and>
   reachable mem_ex {rekey_visitor} table9_rekeyed \<and>
   (0 :: nat) < length (data_hm table9_rekeyed) \<and> (1 :: nat) < length (data_hm table9_rekeyed) \<and>
   used (data_hm table9_rekeyed ! 0) \<and> used (data_hm table9_rekeyed ! 1) \<and>
   hashmapCheckIfMatch mem_ex (data_hm table9_rekeyed ! 0)
     (key (data_hm table9_rekeyed ! 1)) (keyLen (data_hm table9_rekeyed ! 1)) \<and>
   (0 :: nat) \<noteq> 1"
proof -
  have it: "hashmapApplyIterator rekey_visitor table9 () = Some (0, table9_rekeyed, ())"
    by code_simp
  have r9: "reachable mem_ex {rekey_visitor} table9" by (rule table9_reachable)
  have r: "reachable mem_ex {rekey_visitor} table9_rekeyed"
    by (rule reach_iterate [OF r9 _ it]) simp
  have f: "(0 :: nat) < length (data_hm table9_rekeyed) \<and> (1 :: nat) < length (data_hm table9_rekeyed) \<and>
     used (data_hm table9_rekeyed ! 0) \<and> used (data_hm table9_rekeyed ! 1) \<and>
     hashmapCheckIfMatch mem_ex (data_hm table9_rekeyed ! 0)
       (key (data_hm table9_rekeyed ! 1)) (keyLen (data_hm table9_rekeyed ! 1))"
    by code_simp
  show ?thesis using it r9 r f by simp
qed

end
